theory Spec2Isabelle
  imports Complex_Main "HOL-Library.Word" "HOL-Library.Signed_Division" "HOL-Library.Multiset"
begin

section \<open>Generic slice helpers of the card game server (package slices)\<close>

text \<open>
  The Go package \<^verbatim>\<open>server/util/slices\<close> is embedded function by function.
  A \<^verbatim>\<open>for i, v := range slice\<close> loop is a recursion over the elements that are
  still to be visited, with the loop index carried along.  Run-time panics are values.

  The operator \<^verbatim>\<open>==\<close> of a type parameter with the constraint \<^verbatim>\<open>comparable\<close> is the
  argument \<open>eq\<close> of the functions that compare.  For booleans, integers, strings and the
  structs and arrays made of them it is equality.  For the floating-point types it is
  the comparison \<open>ieee_eq\<close> of IEEE 754, under which a NaN is not equal to itself.  The
  operator is total here: interface values whose comparison panics are not modelled.
\<close>

datatype panic =
    IntegerDivideByZero
  | IndexOutOfRange
  | SliceBoundsOutOfRange
  | TypeAssertionError


subsection \<open>Contains and IndexOf\<close>

text \<open>
  \<^verbatim>\<open>
  func Contains[T comparable](slice []T, item T) bool {
      for _, v := range slice { if v == item { return true } }
      return false
  }
  func IndexOf[T comparable](slice []T, item T) int {
      for i, v := range slice { if v == item { return i } }
      return -1
  }
  \<close>
\<close>

fun Contains :: "('a \<Rightarrow> 'a \<Rightarrow> bool) \<Rightarrow> 'a list \<Rightarrow> 'a \<Rightarrow> bool" where
  "Contains eq [] item = False"
| "Contains eq (v # rest) item = (if eq v item then True else Contains eq rest item)"

fun IndexOf_from :: "('a \<Rightarrow> 'a \<Rightarrow> bool) \<Rightarrow> int \<Rightarrow> 'a list \<Rightarrow> 'a \<Rightarrow> int" where
  "IndexOf_from eq i [] item = - 1"
| "IndexOf_from eq i (v # rest) item =
     (if eq v item then i else IndexOf_from eq (i + 1) rest item)"

definition IndexOf :: "('a \<Rightarrow> 'a \<Rightarrow> bool) \<Rightarrow> 'a list \<Rightarrow> 'a \<Rightarrow> int" where
  "IndexOf eq xs item = IndexOf_from eq 0 xs item"


subsection \<open>The numeric constraint, Sum and Average\<close>

text \<open>
  \<^verbatim>\<open>
  type numeric interface {
      int | int8 | int16 | int32 | int64 | float32 | float64 |
      uint | uint8 | uint16 | uint32 | uint64
  }
  \<close>
  A generic function over \<^verbatim>\<open>T numeric\<close> uses four things of \<open>T\<close>: its zero value
  (\<^verbatim>\<open>var sum T\<close>), \<^verbatim>\<open>+\<close>, \<^verbatim>\<open>/\<close> and the conversion \<^verbatim>\<open>T(n)\<close> of an \<^verbatim>\<open>int\<close>.
  They are passed as a record, one record per type of the constraint.
\<close>

record 'a numeric =
  zero_of :: 'a
  add_of :: "'a \<Rightarrow> 'a \<Rightarrow> 'a"
  quo_of :: "'a \<Rightarrow> 'a \<Rightarrow> panic + 'a"
  conv_of :: "int \<Rightarrow> 'a"

text \<open>
  The integer types are words of their width.  Addition wraps around.  Division by zero
  panics; otherwise the quotient is truncated towards zero, and the one overflowing
  quotient (the most negative value by \<open>-1\<close>) wraps.  A conversion keeps the low bits.
\<close>

definition signed_int :: "'w::len word numeric" where
  "signed_int =
     \<lparr> zero_of = 0,
       add_of = (\<lambda>x y. x + y),
       quo_of = (\<lambda>x y. if y = 0 then Inl IntegerDivideByZero
                        else Inr (word_of_int (sint x sdiv sint y))),
       conv_of = word_of_int \<rparr>"

definition unsigned_int :: "'w::len word numeric" where
  "unsigned_int =
     \<lparr> zero_of = 0,
       add_of = (\<lambda>x y. x + y),
       quo_of = (\<lambda>x y. if y = 0 then Inl IntegerDivideByZero else Inr (x div y)),
       conv_of = word_of_int \<rparr>"

definition int8 :: "8 word numeric" where "int8 = signed_int"
definition int16 :: "16 word numeric" where "int16 = signed_int"
definition int32 :: "32 word numeric" where "int32 = signed_int"
definition int64 :: "64 word numeric" where "int64 = signed_int"
definition uint8 :: "8 word numeric" where "uint8 = unsigned_int"
definition uint16 :: "16 word numeric" where "uint16 = unsigned_int"
definition uint32 :: "32 word numeric" where "uint32 = unsigned_int"
definition uint64 :: "64 word numeric" where "uint64 = unsigned_int"

text \<open>
  \<^verbatim>\<open>int\<close> and \<^verbatim>\<open>uint\<close> are \<open>signed_int\<close> and \<open>unsigned_int\<close> at the width of the
  platform (32 or 64 bits); the theorems below hold at every width.

  The floating-point types follow IEEE 754, as the Go compilers implement them: every
  operation returns a value, and a division by zero gives an infinity or a NaN, never a
  panic.  \<open>Fin s m\<close> is the number of sign \<open>s\<close> (true: negative) and magnitude \<open>m\<close>.  The
  rounding of an exact result to the format (\<^verbatim>\<open>float32\<close> or \<^verbatim>\<open>float64\<close>) is the parameter
  \<open>rnd\<close>, which is given the sign and the exact non-zero magnitude.
\<close>

datatype ieee = NaN | Inf bool | Fin bool rat

fun ieee_value :: "bool \<Rightarrow> rat \<Rightarrow> rat" where
  "ieee_value s m = (if s then - m else m)"

fun ieee_add :: "(bool \<Rightarrow> rat \<Rightarrow> ieee) \<Rightarrow> ieee \<Rightarrow> ieee \<Rightarrow> ieee" where
  "ieee_add rnd NaN y = NaN"
| "ieee_add rnd x NaN = NaN"
| "ieee_add rnd (Inf s) (Inf t) = (if s = t then Inf s else NaN)"
| "ieee_add rnd (Inf s) (Fin t k) = Inf s"
| "ieee_add rnd (Fin s m) (Inf t) = Inf t"
| "ieee_add rnd (Fin s m) (Fin t k) =
     (let q = ieee_value s m + ieee_value t k
      in if q = 0 then Fin (s \<and> t) 0 else rnd (q < 0) \<bar>q\<bar>)"

fun ieee_quo :: "(bool \<Rightarrow> rat \<Rightarrow> ieee) \<Rightarrow> ieee \<Rightarrow> ieee \<Rightarrow> ieee" where
  "ieee_quo rnd NaN y = NaN"
| "ieee_quo rnd x NaN = NaN"
| "ieee_quo rnd (Inf s) (Inf t) = NaN"
| "ieee_quo rnd (Inf s) (Fin t k) = Inf (s \<noteq> t)"
| "ieee_quo rnd (Fin s m) (Inf t) = Fin (s \<noteq> t) 0"
| "ieee_quo rnd (Fin s m) (Fin t k) =
     (if k = 0 then (if m = 0 then NaN else Inf (s \<noteq> t))
      else if m = 0 then Fin (s \<noteq> t) 0
      else rnd (s \<noteq> t) (m / k))"

text \<open>
  The comparison \<^verbatim>\<open>==\<close> of two floating-point values: a NaN is equal to nothing, the two
  zeros are equal.
\<close>

fun ieee_eq :: "ieee \<Rightarrow> ieee \<Rightarrow> bool" where
  "ieee_eq NaN y = False"
| "ieee_eq x NaN = False"
| "ieee_eq (Inf s) (Inf t) = (s = t)"
| "ieee_eq (Inf s) (Fin t k) = False"
| "ieee_eq (Fin s m) (Inf t) = False"
| "ieee_eq (Fin s m) (Fin t k) = (m = k \<and> (s = t \<or> m = 0))"

definition ieee_of_int :: "(bool \<Rightarrow> rat \<Rightarrow> ieee) \<Rightarrow> int \<Rightarrow> ieee" where
  "ieee_of_int rnd n = (if n = 0 then Fin False 0 else rnd (n < 0) (of_int \<bar>n\<bar>))"

definition floating :: "(bool \<Rightarrow> rat \<Rightarrow> ieee) \<Rightarrow> ieee numeric" where
  "floating rnd =
     \<lparr> zero_of = Fin False 0,
       add_of = ieee_add rnd,
       quo_of = (\<lambda>x y. Inr (ieee_quo rnd x y)),
       conv_of = ieee_of_int rnd \<rparr>"

text \<open>
  \<^verbatim>\<open>
  func Sum[T numeric](slice []T) T {
      var sum T
      for _, v := range slice { sum += v }
      return sum
  }
  func Average[T numeric](slice []T) T {
      return Sum(slice) / T(len(slice))
  }
  \<close>
\<close>

fun Sum_loop :: "'a numeric \<Rightarrow> 'a \<Rightarrow> 'a list \<Rightarrow> 'a" where
  "Sum_loop T acc [] = acc"
| "Sum_loop T acc (v # rest) = Sum_loop T (add_of T acc v) rest"

definition Sum :: "'a numeric \<Rightarrow> 'a list \<Rightarrow> 'a" where
  "Sum T xs = Sum_loop T (zero_of T) xs"

definition Average :: "'a numeric \<Rightarrow> 'a list \<Rightarrow> panic + 'a" where
  "Average T xs = quo_of T (Sum T xs) (conv_of T (int (length xs)))"

subsection \<open>Maps\<close>

text \<open>
  A Go map is the list of its entries.  The index expression \<^verbatim>\<open>m[k]\<close> finds the entry
  whose key compares equal to \<open>k\<close>, if there is one (\<^verbatim>\<open>v, ok := m[k]\<close>).  The assignment
  \<^verbatim>\<open>m[k] = v\<close> overwrites that entry, or adds an entry when there is none.  A key that
  is not equal to itself is therefore never found, and every assignment to it adds an
  entry.  The position of an entry in the list has no meaning: Go does not specify the
  order in which \<^verbatim>\<open>range\<close> visits a map.  The order of a \<^verbatim>\<open>range\<close> loop is
  an argument of the function that has the loop, a list of entries; \<open>range_visits\<close>
  says what Go does promise of it, that every entry of the map is visited once and
  nothing else is.
\<close>

type_synonym ('k, 'v) gomap = "('k \<times> 'v) list"

fun map_index :: "('k \<Rightarrow> 'k \<Rightarrow> bool) \<Rightarrow> ('k, 'v) gomap \<Rightarrow> 'k \<Rightarrow> 'v option" where
  "map_index eq [] k = None"
| "map_index eq ((k', v') # m) k = (if eq k' k then Some v' else map_index eq m k)"

fun map_assign :: "('k \<Rightarrow> 'k \<Rightarrow> bool) \<Rightarrow> ('k, 'v) gomap \<Rightarrow> 'k \<Rightarrow> 'v \<Rightarrow> ('k, 'v) gomap" where
  "map_assign eq [] k v = [(k, v)]"
| "map_assign eq ((k', v') # m) k v =
     (if eq k' k then (k, v) # m else (k', v') # map_assign eq m k v)"

definition range_visits :: "('k \<times> 'v) list \<Rightarrow> ('k, 'v) gomap \<Rightarrow> bool" where
  "range_visits order m \<longleftrightarrow> mset order = mset m"


subsection \<open>Unique and UniqueBy\<close>

text \<open>
  \<^verbatim>\<open>
  func Unique[T comparable](slice []T) []T {
      i := 0
      have := make(map[T]int)
      for _, v := range slice {
          if _, ok := have[v]; !ok { have[v] = i; i++ }
      }
      result := make([]T, i)
      for k := range have { result[have[k]] = k }
      return result
  }
  \<close>
  The first loop threads the counter \<open>i\<close> and the map.  The second loop visits the
  entries in the order \<open>order\<close> and uses their keys.  Reading the map at a key that is
  not found gives the zero value \<open>0\<close>; \<open>z\<close> is the zero value of \<open>T\<close>, with which
  \<^verbatim>\<open>make\<close> fills the result; the indexed store is checked against the length.
\<close>

fun Unique_scan ::
  "('a \<Rightarrow> 'a \<Rightarrow> bool) \<Rightarrow> 'a list \<Rightarrow> nat \<Rightarrow> ('a, nat) gomap \<Rightarrow> nat \<times> ('a, nat) gomap" where
  "Unique_scan eq [] i have_map = (i, have_map)"
| "Unique_scan eq (v # rest) i have_map =
     (case map_index eq have_map v of
        None \<Rightarrow> Unique_scan eq rest (i + 1) (map_assign eq have_map v i)
      | Some _ \<Rightarrow> Unique_scan eq rest i have_map)"

fun Unique_fill ::
  "('a \<Rightarrow> 'a \<Rightarrow> bool) \<Rightarrow> ('a, nat) gomap \<Rightarrow> ('a \<times> nat) list \<Rightarrow> 'a list \<Rightarrow> panic + 'a list" where
  "Unique_fill eq have_map [] result = Inr result"
| "Unique_fill eq have_map ((k, _) # order) result =
     (let idx = (case map_index eq have_map k of None \<Rightarrow> 0 | Some i \<Rightarrow> i)
      in if idx < length result then Unique_fill eq have_map order (result[idx := k])
         else Inl IndexOutOfRange)"

definition Unique ::
  "('a \<Rightarrow> 'a \<Rightarrow> bool) \<Rightarrow> ('a \<times> nat) list \<Rightarrow> 'a \<Rightarrow> 'a list \<Rightarrow> panic + 'a list" where
  "Unique eq order z xs =
     (case Unique_scan eq xs 0 [] of
        (i, have_map) \<Rightarrow> Unique_fill eq have_map order (replicate i z))"

text \<open>
  \<^verbatim>\<open>
  type uniquePair struct { index int; value any }

  func UniqueBy[T any, U comparable](slice []T, f func(T) U) []T {
      i := 0
      have := make(map[U]uniquePair)
      for _, v := range slice {
          unique := f(v)
          if _, ok := have[unique]; !ok { have[unique] = uniquePair{i, v}; i++ }
      }
      result := make([]T, i)
      for _, p := range have { result[p.index] = p.value.(T) }
      return result
  }
  \<close>
  The field \<^verbatim>\<open>value\<close> has the interface type \<^verbatim>\<open>any\<close>.  Storing an element in it
  converts the element to \<^verbatim>\<open>any\<close>; reading it back is the type assertion
  \<^verbatim>\<open>p.value.(T)\<close>.  Every dynamic type stored is that of a value of \<open>T\<close>, so the
  assertion fails in one case only: \<open>T\<close> is itself an interface type (\<^verbatim>\<open>T any\<close> admits
  them) and the element is its nil value, which converts to the nil \<^verbatim>\<open>any\<close>; the
  assertion of a nil interface value panics.  The predicate \<open>is_nil\<close> says which values
  of \<open>T\<close> are nil interface values: none when \<open>T\<close> is not an interface type.
\<close>

datatype 'a any = AnyNil | AnyOf 'a

definition to_any :: "('a \<Rightarrow> bool) \<Rightarrow> 'a \<Rightarrow> 'a any" where
  "to_any is_nil v = (if is_nil v then AnyNil else AnyOf v)"

fun type_assert :: "'a any \<Rightarrow> panic + 'a" where
  "type_assert AnyNil = Inl TypeAssertionError"
| "type_assert (AnyOf v) = Inr v"

record 'a uniquePair =
  pair_index :: nat
  pair_value :: "'a any"

fun UniqueBy_scan ::
  "('u \<Rightarrow> 'u \<Rightarrow> bool) \<Rightarrow> ('a \<Rightarrow> bool) \<Rightarrow> ('a \<Rightarrow> 'u) \<Rightarrow> 'a list \<Rightarrow> nat
     \<Rightarrow> ('u, 'a uniquePair) gomap \<Rightarrow> nat \<times> ('u, 'a uniquePair) gomap" where
  "UniqueBy_scan eq is_nil f [] i have_map = (i, have_map)"
| "UniqueBy_scan eq is_nil f (v # rest) i have_map =
     (let unique = f v
      in case map_index eq have_map unique of
           None \<Rightarrow> UniqueBy_scan eq is_nil f rest (i + 1)
                     (map_assign eq have_map unique
                        \<lparr>pair_index = i, pair_value = to_any is_nil v\<rparr>)
         | Some _ \<Rightarrow> UniqueBy_scan eq is_nil f rest i have_map)"

text \<open>
  The second loop uses the values of the entries, not their keys.  In the assignment
  \<^verbatim>\<open>result[p.index] = p.value.(T)\<close> the right-hand side is evaluated first, the indexed
  store, with its check against the length, second.
\<close>

fun UniqueBy_fill :: "('u \<times> 'a uniquePair) list \<Rightarrow> 'a list \<Rightarrow> panic + 'a list" where
  "UniqueBy_fill [] result = Inr result"
| "UniqueBy_fill ((_, p) # order) result =
     (case type_assert (pair_value p) of
        Inl e \<Rightarrow> Inl e
      | Inr v \<Rightarrow>
          if pair_index p < length result
          then UniqueBy_fill order (result[pair_index p := v])
          else Inl IndexOutOfRange)"

definition UniqueBy ::
  "('u \<Rightarrow> 'u \<Rightarrow> bool) \<Rightarrow> ('a \<Rightarrow> bool) \<Rightarrow> ('u \<times> 'a uniquePair) list \<Rightarrow> 'a \<Rightarrow> 'a list
     \<Rightarrow> ('a \<Rightarrow> 'u) \<Rightarrow> panic + 'a list" where
  "UniqueBy eq is_nil order z xs f =
     (case UniqueBy_scan eq is_nil f xs 0 [] of
        (i, have_map) \<Rightarrow> UniqueBy_fill order (replicate i z))"

text \<open>
  What the specification asks of the two functions, in its words: the elements (of
  \<open>Unique\<close>) whose value, and (of \<open>UniqueBy\<close>) whose key, has not occurred at an earlier
  position, in the order of the input.
\<close>

definition first_occurrences_by :: "('u \<Rightarrow> 'u \<Rightarrow> bool) \<Rightarrow> ('a \<Rightarrow> 'u) \<Rightarrow> 'a list \<Rightarrow> 'a list" where
  "first_occurrences_by eq f xs =
     map (\<lambda>i. xs ! i)
       (filter (\<lambda>i. \<not> (\<exists>u \<in> set (take i xs). eq (f u) (f (xs ! i)))) [0..<length xs])"

definition first_occurrences :: "('a \<Rightarrow> 'a \<Rightarrow> bool) \<Rightarrow> 'a list \<Rightarrow> 'a list" where
  "first_occurrences eq xs =
     map (\<lambda>i. xs ! i)
       (filter (\<lambda>i. \<not> (\<exists>u \<in> set (take i xs). eq u (xs ! i))) [0..<length xs])"


subsection \<open>Associate\<close>

text \<open>
  \<^verbatim>\<open>
  func Associate[K comparable, V any](keys []K, values []V) map[K]V {
      result := make(map[K]V)
      for i, v := range keys {
          if i >= len(values) { break }
          result[v] = values[i]
      }
      return result
  }
  \<close>
\<close>

fun Associate_loop ::
  "('k \<Rightarrow> 'k \<Rightarrow> bool) \<Rightarrow> 'v list \<Rightarrow> nat \<Rightarrow> 'k list \<Rightarrow> ('k, 'v) gomap \<Rightarrow> ('k, 'v) gomap" where
  "Associate_loop eq vals i [] result = result"
| "Associate_loop eq vals i (v # rest) result =
     (if i \<ge> length vals then result
      else Associate_loop eq vals (i + 1) rest (map_assign eq result v (vals ! i)))"

definition Associate :: "('k \<Rightarrow> 'k \<Rightarrow> bool) \<Rightarrow> 'k list \<Rightarrow> 'v list \<Rightarrow> ('k, 'v) gomap" where
  "Associate eq keys vals = Associate_loop eq vals 0 keys []"


subsection \<open>IntersperseBy\<close>

text \<open>
  \<^verbatim>\<open>
  func IntersperseBy[T any](values []T, separatorGenerator func(T) T) []T {
      if len(values) == 0 { return []T{} }
      result := []T{values[0]}
      for i, v := range values[1:] {
          result = append(result, separatorGenerator(values[i]), v)
      }
      return result
  }
  \<close>
  The loop runs over \<^verbatim>\<open>values[1:]\<close> and reads \<^verbatim>\<open>values[i]\<close> from the whole slice, with
  the bounds check of an index expression.
\<close>

fun IntersperseBy_loop ::
  "'a list \<Rightarrow> ('a \<Rightarrow> 'a) \<Rightarrow> nat \<Rightarrow> 'a list \<Rightarrow> 'a list \<Rightarrow> panic + 'a list" where
  "IntersperseBy_loop vals separatorGenerator i [] result = Inr result"
| "IntersperseBy_loop vals separatorGenerator i (v # rest) result =
     (if i < length vals
      then IntersperseBy_loop vals separatorGenerator (i + 1) rest
             (result @ [separatorGenerator (vals ! i), v])
      else Inl IndexOutOfRange)"

definition IntersperseBy :: "'a list \<Rightarrow> ('a \<Rightarrow> 'a) \<Rightarrow> panic + 'a list" where
  "IntersperseBy vals separatorGenerator =
     (if length vals = 0 then Inr []
      else IntersperseBy_loop vals separatorGenerator 0 (drop 1 vals) [vals ! 0])"

subsection \<open>Slices over backing arrays\<close>

text \<open>
  \<open>Remove\<close>, \<open>RemoveAt\<close> and \<open>Shuffle\<close> write to memory, and what they promise depends on
  which slices share a backing array.  For them a slice is what it is in Go: a header
  naming a backing array, an offset into it, a length and a capacity.  The store is the
  list of the backing arrays allocated so far; an allocation adds one at the end.
\<close>

type_synonym 'a store = "'a list list"

record slice_header =
  s_arr :: nat
  s_off :: nat
  s_len :: nat
  s_cap :: nat

definition nil_slice :: slice_header where
  "nil_slice = \<lparr>s_arr = 0, s_off = 0, s_len = 0, s_cap = 0\<rparr>"

definition elems :: "'a store \<Rightarrow> slice_header \<Rightarrow> 'a list" where
  "elems st s = take (s_len s) (drop (s_off s) (st ! s_arr s))"

definition valid_slice :: "'a store \<Rightarrow> slice_header \<Rightarrow> bool" where
  "valid_slice st s \<longleftrightarrow>
     s_len s \<le> s_cap s \<and>
     (s_cap s = 0 \<or> (s_arr s < length st \<and> s_off s + s_cap s \<le> length (st ! s_arr s)))"

text \<open>
  The slice expressions \<^verbatim>\<open>s[:high]\<close> and \<^verbatim>\<open>s[low:]\<close>.  For a slice the upper bound of
  \<^verbatim>\<open>high\<close> is the capacity, and a missing \<^verbatim>\<open>high\<close> is the length.
\<close>

definition slice_upto :: "slice_header \<Rightarrow> int \<Rightarrow> panic + slice_header" where
  "slice_upto s high =
     (if 0 \<le> high \<and> high \<le> int (s_cap s) then Inr (s\<lparr>s_len := nat high\<rparr>)
      else Inl SliceBoundsOutOfRange)"

definition slice_from :: "slice_header \<Rightarrow> int \<Rightarrow> panic + slice_header" where
  "slice_from s low =
     (if 0 \<le> low \<and> low \<le> int (s_len s)
      then Inr (s\<lparr>s_off := s_off s + nat low, s_len := s_len s - nat low,
                 s_cap := s_cap s - nat low\<rparr>)
      else Inl SliceBoundsOutOfRange)"

text \<open>
  The index expression \<^verbatim>\<open>s[i]\<close>, read and written.
\<close>

definition index_get :: "'a store \<Rightarrow> slice_header \<Rightarrow> int \<Rightarrow> panic + 'a" where
  "index_get st s i =
     (if 0 \<le> i \<and> i < int (s_len s) then Inr (st ! s_arr s ! (s_off s + nat i))
      else Inl IndexOutOfRange)"

definition index_set :: "'a store \<Rightarrow> slice_header \<Rightarrow> int \<Rightarrow> 'a \<Rightarrow> panic + 'a store" where
  "index_set st s i v =
     (if 0 \<le> i \<and> i < int (s_len s)
      then Inr (st[s_arr s := (st ! s_arr s)[s_off s + nat i := v]])
      else Inl IndexOutOfRange)"

text \<open>
  The built-in \<^verbatim>\<open>append(s, es...)\<close>.  When the capacity of \<open>s\<close> suffices, the values are
  written into the backing array of \<open>s\<close>, behind its elements.  Otherwise a new array is
  allocated, large enough for the elements of \<open>s\<close> and the values.  How much larger is up
  to the run time: \<open>grow\<close> is its choice, from the old capacity and the length needed.
  The unused part of a new array holds the zero value \<open>z\<close> of the element type.  The
  values \<open>es\<close> have been read before anything is written, as the built-in does when they
  come from the array it writes to.
\<close>

definition write_at :: "'a list \<Rightarrow> nat \<Rightarrow> 'a list \<Rightarrow> 'a list" where
  "write_at a k es = take k a @ es @ drop (k + length es) a"

definition go_append ::
  "(nat \<Rightarrow> nat \<Rightarrow> nat) \<Rightarrow> 'a \<Rightarrow> 'a store \<Rightarrow> slice_header \<Rightarrow> 'a list \<Rightarrow> 'a store \<times> slice_header" where
  "go_append grow z st s es =
     (let n = s_len s + length es
      in if n \<le> s_cap s
         then (st[s_arr s := write_at (st ! s_arr s) (s_off s + s_len s) es], s\<lparr>s_len := n\<rparr>)
         else (let c = max n (grow (s_cap s) n)
               in (st @ [elems st s @ es @ replicate (c - n) z],
                   \<lparr>s_arr = length st, s_off = 0, s_len = n, s_cap = c\<rparr>)))"

subsection \<open>Remove and RemoveAt\<close>

text \<open>
  \<^verbatim>\<open>
  func copy[T any](slice []T) []T {
      return append([]T(nil), slice...)
  }
  func Remove[T comparable](slice []T, item T) []T {
      slice = copy(slice)
      for i, v := range slice {
          if v == item { return append(slice[:i], slice[i+1:]...) }
      }
      return slice
  }
  func RemoveAt[T comparable](slice []T, index int) []T {
      slice = copy(slice)
      return append(slice[:index], slice[index+1:]...)
  }
  \<close>
  \<open>append_around\<close> is the expression \<^verbatim>\<open>append(slice[:i], slice[i+1:]...)\<close> that both
  functions return: its operands are evaluated from left to right, and either slice
  expression may panic.  An \<^verbatim>\<open>int\<close> is an integer here; \<^verbatim>\<open>i+1\<close> can overflow only at
  the largest \<^verbatim>\<open>int\<close>, which no length exceeds, so that the second slice expression
  panics there with or without the overflow.
\<close>

definition copy :: "(nat \<Rightarrow> nat \<Rightarrow> nat) \<Rightarrow> 'a \<Rightarrow> 'a store \<Rightarrow> slice_header \<Rightarrow> 'a store \<times> slice_header" where
  "copy grow z st s = go_append grow z st nil_slice (elems st s)"

definition append_around ::
  "(nat \<Rightarrow> nat \<Rightarrow> nat) \<Rightarrow> 'a \<Rightarrow> 'a store \<Rightarrow> slice_header \<Rightarrow> int \<Rightarrow> panic + 'a store \<times> slice_header" where
  "append_around grow z st s i =
     (case slice_upto s i of
        Inl e \<Rightarrow> Inl e
      | Inr front \<Rightarrow>
          (case slice_from s (i + 1) of
             Inl e \<Rightarrow> Inl e
           | Inr back \<Rightarrow> Inr (go_append grow z st front (elems st back))))"

fun Remove_loop ::
  "('a \<Rightarrow> 'a \<Rightarrow> bool) \<Rightarrow> (nat \<Rightarrow> nat \<Rightarrow> nat) \<Rightarrow> 'a \<Rightarrow> 'a store \<Rightarrow> slice_header \<Rightarrow> 'a \<Rightarrow> int
     \<Rightarrow> 'a list \<Rightarrow> panic + 'a store \<times> slice_header" where
  "Remove_loop eq grow z st s item i [] = Inr (st, s)"
| "Remove_loop eq grow z st s item i (v # rest) =
     (if eq v item then append_around grow z st s i
      else Remove_loop eq grow z st s item (i + 1) rest)"

definition Remove ::
  "('a \<Rightarrow> 'a \<Rightarrow> bool) \<Rightarrow> (nat \<Rightarrow> nat \<Rightarrow> nat) \<Rightarrow> 'a \<Rightarrow> 'a store \<Rightarrow> slice_header \<Rightarrow> 'a
     \<Rightarrow> panic + 'a store \<times> slice_header" where
  "Remove eq grow z st s item =
     (case copy grow z st s of
        (st1, c) \<Rightarrow> Remove_loop eq grow z st1 c item 0 (elems st1 c))"

definition RemoveAt ::
  "(nat \<Rightarrow> nat \<Rightarrow> nat) \<Rightarrow> 'a \<Rightarrow> 'a store \<Rightarrow> slice_header \<Rightarrow> int \<Rightarrow> panic + 'a store \<times> slice_header" where
  "RemoveAt grow z st s index =
     (case copy grow z st s of (st1, c) \<Rightarrow> append_around grow z st1 c index)"

subsection \<open>Shuffle\<close>

text \<open>
  \<^verbatim>\<open>
  func Shuffle[T any](slice []T) {
      for i := len(slice) - 1; i > 0; i-- {
          j := rand.Intn(i + 1)
          slice[i], slice[j] = slice[j], slice[i]
      }
  }
  \<close>
  The random source is the argument \<open>Intn\<close>: the value that \<^verbatim>\<open>rand.Intn\<close> returns for
  its argument in this run (a run calls it once for each argument).  The tuple
  assignment reads both right-hand sides, then stores from left to right; each of the
  four index expressions is checked.
\<close>

definition swap :: "'a store \<Rightarrow> slice_header \<Rightarrow> int \<Rightarrow> int \<Rightarrow> panic + 'a store" where
  "swap st s i j =
     (case index_get st s j of
        Inl e \<Rightarrow> Inl e
      | Inr a \<Rightarrow>
          (case index_get st s i of
             Inl e \<Rightarrow> Inl e
           | Inr b \<Rightarrow>
               (case index_set st s i a of
                  Inl e \<Rightarrow> Inl e
                | Inr st1 \<Rightarrow> index_set st1 s j b)))"

function Shuffle_loop :: "(int \<Rightarrow> int) \<Rightarrow> 'a store \<Rightarrow> slice_header \<Rightarrow> int \<Rightarrow> panic + 'a store" where
  "Shuffle_loop Intn st s i =
     (if i > 0
      then (case swap st s i (Intn (i + 1)) of
              Inl e \<Rightarrow> Inl e
            | Inr st1 \<Rightarrow> Shuffle_loop Intn st1 s (i - 1))
      else Inr st)"
  by pat_completeness auto
termination
  by (relation "measure (\<lambda>(Intn, st, s, i). nat i)") auto

declare Shuffle_loop.simps [simp del]

definition Shuffle :: "(int \<Rightarrow> int) \<Rightarrow> 'a store \<Rightarrow> slice_header \<Rightarrow> panic + 'a store" where
  "Shuffle Intn st s = Shuffle_loop Intn st s (int (s_len s) - 1)"

text \<open>
  The sequence of swaps the specification describes, on the elements alone: for \<open>i\<close>
  from the last index down to 1, the elements at \<open>i\<close> and at the draw for \<open>i\<close> change
  places.
\<close>

definition swap_elems :: "nat \<Rightarrow> nat \<Rightarrow> 'a list \<Rightarrow> 'a list" where
  "swap_elems i j xs = xs[i := xs ! j, j := xs ! i]"

definition fisher_yates :: "(int \<Rightarrow> int) \<Rightarrow> 'a list \<Rightarrow> 'a list" where
  "fisher_yates Intn xs =
     fold (\<lambda>i. swap_elems i (nat (Intn (int i + 1)))) (rev [1..<length xs]) xs"

subsection \<open>Reference functions\<close>

text \<open>
  The list the specification describes: every element but the last is followed by the
  separator made from it.
\<close>

fun interspersed_by :: "('a \<Rightarrow> 'a) \<Rightarrow> 'a list \<Rightarrow> 'a list" where
  "interspersed_by f [] = []"
| "interspersed_by f [v] = [v]"
| "interspersed_by f (v # w # rest) = v # f v # interspersed_by f (w # rest)"

text \<open>
  What the first loop of \<open>Unique\<close> and of \<open>UniqueBy\<close> keeps, by one pass from left to
  right with the elements kept so far: an element is kept when no element kept before
  it has a key equal to its key.
\<close>

fun firsts_by :: "('u \<Rightarrow> 'u \<Rightarrow> bool) \<Rightarrow> ('a \<Rightarrow> 'u) \<Rightarrow> 'a list \<Rightarrow> 'a list \<Rightarrow> 'a list" where
  "firsts_by eq f kept [] = kept"
| "firsts_by eq f kept (v # rest) =
     (if \<exists>u \<in> set kept. eq (f u) (f v) then firsts_by eq f kept rest
      else firsts_by eq f (kept @ [v]) rest)"

text \<open>
  The map of the first loop after it has kept the elements \<open>kept\<close>: one entry for each,
  with its position in \<open>kept\<close> (and, for \<open>UniqueBy\<close>, the element converted to \<^verbatim>\<open>any\<close>).
\<close>

definition unique_entries :: "'a list \<Rightarrow> ('a, nat) gomap" where
  "unique_entries kept = map (\<lambda>(j, v). (v, j)) (enumerate 0 kept)"

definition uniqueBy_entries ::
  "('a \<Rightarrow> bool) \<Rightarrow> ('a \<Rightarrow> 'u) \<Rightarrow> 'a list \<Rightarrow> ('u, 'a uniquePair) gomap" where
  "uniqueBy_entries is_nil f kept =
     map (\<lambda>(j, v). (f v, \<lparr>pair_index = j, pair_value = to_any is_nil v\<rparr>)) (enumerate 0 kept)"


text \<open>
  One assignment \<^verbatim>\<open>result[k] = v\<close> of a pair, named so that the loop of \<open>Associate\<close>
  reads as a fold over the pairs of keys and values.
\<close>

definition assign_pair :: "('k \<Rightarrow> 'k \<Rightarrow> bool) \<Rightarrow> 'k \<times> 'v \<Rightarrow> ('k, 'v) gomap \<Rightarrow> ('k, 'v) gomap" where
  "assign_pair eq p m = map_assign eq m (fst p) (snd p)"

text \<open>
  The entries the specification describes for a map built by assignments in order,
  when a later key overwrites an equal earlier one: a pair of \<open>ps\<close> stays when no pair
  after it has an equal key.
\<close>

fun last_writes :: "('k \<Rightarrow> 'k \<Rightarrow> bool) \<Rightarrow> ('k \<times> 'v) list \<Rightarrow> ('k \<times> 'v) list" where
  "last_writes eq [] = []"
| "last_writes eq (p # ps) =
     (if \<exists>q \<in> set ps. eq (fst p) (fst q) then last_writes eq ps else p # last_writes eq ps)"

text \<open>
  The invariant of a map: no key of an entry is equal to the key of an entry after it.
\<close>

fun apart :: "('k \<Rightarrow> 'k \<Rightarrow> bool) \<Rightarrow> ('k, 'v) gomap \<Rightarrow> bool" where
  "apart eq [] = True"
| "apart eq (p # m) = ((\<forall>q \<in> set m. \<not> eq (fst p) (fst q)) \<and> apart eq m)"


section \<open>Properties\<close>

subsection \<open>Contains and IndexOf agree\<close>

lemma Contains_iff_some: "Contains eq S x \<longleftrightarrow> (\<exists>v \<in> set S. eq v x)"
  by (induction S) auto

lemma IndexOf_from_absent: "\<not> (\<exists>v \<in> set S. eq v x) \<Longrightarrow> IndexOf_from eq i S x = - 1"
  by (induction S arbitrary: i) auto

lemma IndexOf_from_present:
  "\<exists>v \<in> set S. eq v x \<Longrightarrow> 0 \<le> i \<Longrightarrow>
     i \<le> IndexOf_from eq i S x \<and> IndexOf_from eq i S x < i + int (length S)
     \<and> eq (S ! nat (IndexOf_from eq i S x - i)) x
     \<and> (\<forall>j < nat (IndexOf_from eq i S x - i). \<not> eq (S ! j) x)"
proof (induction S arbitrary: i)
  case Nil
  then show ?case by simp
next
  case (Cons v rest)
  show ?case
  proof (cases "eq v x")
    case True
    then show ?thesis by simp
  next
    case False
    with Cons.prems have some: "\<exists>v \<in> set rest. eq v x" by simp
    from Cons.prems have nonneg: "0 \<le> i + 1" by simp
    note ih = Cons.IH [of "i + 1", OF some nonneg]
    let ?r = "IndexOf_from eq (i + 1) rest x"
    have step: "nat (?r - i) = Suc (nat (?r - (i + 1)))"
      using ih by linarith
    have "\<forall>j < Suc (nat (?r - (i + 1))). \<not> eq ((v # rest) ! j) x"
    proof (intro allI impI)
      fix j assume "j < Suc (nat (?r - (i + 1)))"
      then show "\<not> eq ((v # rest) ! j) x"
        using ih False by (cases j) auto
    qed
    with ih False step show ?thesis by simp
  qed
qed

text \<open>
  Claim C10.  Whatever the comparison of the element type, \<open>Contains\<close> answers true
  exactly when \<open>IndexOf\<close> does not answer the sentinel \<open>-1\<close>; and an answer \<open>i \<ge> 0\<close> of
  \<open>IndexOf\<close> is a position of the slice whose element compares equal to the item, with
  no such element at an earlier position.
\<close>

theorem Contains_IndexOf_agree:
  "(Contains eq S x \<longleftrightarrow> IndexOf eq S x \<noteq> - 1)
   \<and> (\<forall>i. IndexOf eq S x = i \<and> 0 \<le> i \<longrightarrow>
          i < int (length S) \<and> eq (S ! nat i) x \<and> (\<forall>j < nat i. \<not> eq (S ! j) x))"
proof (cases "\<exists>v \<in> set S. eq v x")
  case True
  from IndexOf_from_present [where eq = eq and S = S and x = x and i = 0] True show ?thesis
    by (simp add: IndexOf_def Contains_iff_some)
next
  case False
  from IndexOf_from_absent [where eq = eq and S = S and x = x and i = 0] False show ?thesis
    by (simp add: IndexOf_def Contains_iff_some)
qed

theorem Contains_IndexOf_agree_witness:
  "Contains (=) [5, 7, 7 :: int] 7 \<and> IndexOf (=) [5, 7, 7 :: int] 7 = 1
   \<and> [5, 7, 7 :: int] ! 1 = 7 \<and> [5, 7, 7 :: int] ! 0 \<noteq> 7
   \<and> \<not> Contains (=) [5, 7, 7 :: int] 9 \<and> IndexOf (=) [5, 7, 7 :: int] 9 = - 1"
  using Contains_IndexOf_agree [of "(=)" "[5, 7, 7 :: int]" 7]
    Contains_IndexOf_agree [of "(=)" "[5, 7, 7 :: int]" 9]
  by (simp add: IndexOf_def)


subsection \<open>Average\<close>

text \<open>
  Claim C1.  On the empty slice \<open>Average\<close> divides the zero value by \<open>T(0)\<close>.  For the
  integer types of the constraint that is the panic the doc comment announces.  For
  \<^verbatim>\<open>float32\<close> and \<^verbatim>\<open>float64\<close> the division returns: the result is a NaN, whatever the
  rounding of the format.
\<close>

theorem Average_empty:
  "Average (floating rnd) [] = Inr NaN
   \<and> Average (signed_int :: 'w::len word numeric) [] = Inl IntegerDivideByZero
   \<and> Average (unsigned_int :: 'v::len word numeric) [] = Inl IntegerDivideByZero"
  by (simp add: Average_def Sum_def floating_def ieee_of_int_def signed_int_def unsigned_int_def)

text \<open>
  A quotient truncated towards zero lies between zero and the dividend.
\<close>

lemma sdiv_pos_divisor:
  fixes a b :: int
  assumes "0 < b"
  shows "(0 \<le> a \<longrightarrow> 0 \<le> a sdiv b \<and> a sdiv b \<le> a) \<and> (a < 0 \<longrightarrow> a \<le> a sdiv b \<and> a sdiv b \<le> 0)"
proof -
  have d: "\<bar>a\<bar> div b \<le> \<bar>a\<bar>" "0 \<le> \<bar>a\<bar> div b"
  proof -
    show "0 \<le> \<bar>a\<bar> div b" using assms by (simp add: pos_imp_zdiv_nonneg_iff)
    show "\<bar>a\<bar> div b \<le> \<bar>a\<bar>"
      by (cases "a = 0") (simp_all add: int_div_le_self)
  qed
  show ?thesis
    using assms d by (auto simp add: signed_divide_int_def sgn_if)
qed

lemma sint_conv_length:
  assumes "int n < 2 ^ (LENGTH('w::len) - 1)"
  shows "sint (word_of_int (int n) :: 'w word) = int n"
proof -
  have "- (2 ^ (LENGTH('w) - 1)) \<le> int n"
    by (rule order_trans [of _ 0]) simp_all
  with assms show ?thesis
    by (simp add: signed_of_nat signed_take_bit_int_eq_self)
qed

lemma Average_signed:
  assumes "xs \<noteq> []" and "int (length xs) < 2 ^ (LENGTH('w::len) - 1)"
  shows "\<exists>q. Average (signed_int :: 'w word numeric) xs = Inr q
     \<and> sint q = sint (Sum signed_int xs) sdiv int (length xs)"
proof -
  let ?n = "int (length xs)"
  let ?c = "word_of_int ?n :: 'w word"
  let ?S = "Sum (signed_int :: 'w word numeric) xs"
  have npos: "0 < ?n" using assms(1) by simp
  have sc: "sint ?c = ?n" by (rule sint_conv_length [OF assms(2)])
  have cnz: "?c \<noteq> 0" using sc npos by auto
  have lo: "- (2 ^ (LENGTH('w) - 1)) \<le> sint ?S" by (rule sint_ge)
  have hi: "sint ?S < 2 ^ (LENGTH('w) - 1)" by (rule sint_lt)
  from sdiv_pos_divisor [OF npos, of "sint ?S"] lo hi
  have "- (2 ^ (LENGTH('w) - 1)) \<le> sint ?S sdiv ?n" "sint ?S sdiv ?n < 2 ^ (LENGTH('w) - 1)"
    by (cases "0 \<le> sint ?S"; linarith)+
  then have "sint (word_of_int (sint ?S sdiv ?n) :: 'w word) = sint ?S sdiv ?n"
    by (simp add: sint_sbintrunc' signed_take_bit_int_eq_self)
  with cnz sc show ?thesis
    by (simp add: Average_def signed_int_def)
qed

lemma Average_unsigned:
  assumes "xs \<noteq> []" and "int (length xs) < 2 ^ LENGTH('w::len)"
  shows "\<exists>q. Average (unsigned_int :: 'w word numeric) xs = Inr q
     \<and> uint q = uint (Sum unsigned_int xs) div int (length xs)"
proof -
  let ?n = "int (length xs)"
  let ?c = "word_of_int ?n :: 'w word"
  have npos: "0 < ?n" using assms(1) by simp
  have uc: "uint ?c = ?n" using assms(2) npos
    by (simp add: unsigned_of_nat take_bit_nat_eq_self)
  have cnz: "?c \<noteq> 0" using uc npos by auto
  show ?thesis using cnz uc
    by (simp add: Average_def unsigned_int_def uint_div)
qed

text \<open>
  Claim C8, as stated, fails: a slice of 256 elements of type \<^verbatim>\<open>int8\<close> is not empty, and
  \<open>Average\<close> panics on it, because the conversion \<^verbatim>\<open>T(len(slice))\<close> of its length is \<open>0\<close>.
\<close>

theorem Average_int8_256_panics:
  "replicate 256 (1 :: 8 word) \<noteq> []
   \<and> Average int8 (replicate 256 1) = Inl IntegerDivideByZero"
  by (simp add: Average_def int8_def signed_int_def)

text \<open>
  Claim C8, amended.  On a non-empty slice whose length is a value of \<open>T\<close>, \<open>Average\<close>
  returns the quotient of \<open>Sum\<close> by the length in the arithmetic of \<open>T\<close>: for a signed
  integer type the quotient of the signed values truncated towards zero (\<open>sdiv\<close>), for
  an unsigned one the quotient of the unsigned values, and for a floating-point type
  (where every length has a value) the IEEE quotient by the converted length.  The last
  conjunct is the example of the specification.
\<close>

theorem Average_nonempty:
  "(xs \<noteq> [] \<and> int (length xs) < 2 ^ (LENGTH('w::len) - 1) \<longrightarrow>
      (\<exists>q. Average (signed_int :: 'w word numeric) xs = Inr q
          \<and> sint q = sint (Sum signed_int xs) sdiv int (length xs)))
   \<and> (ys \<noteq> [] \<and> int (length ys) < 2 ^ LENGTH('v::len) \<longrightarrow>
      (\<exists>q. Average (unsigned_int :: 'v word numeric) ys = Inr q
          \<and> uint q = uint (Sum unsigned_int ys) div int (length ys)))
   \<and> Average (floating rnd) zs
        = Inr (ieee_quo rnd (Sum (floating rnd) zs) (ieee_of_int rnd (int (length zs))))
   \<and> Average int64 [1, 2, 3] = Inr 2"
proof (intro conjI impI)
  show "Average (floating rnd) zs
        = Inr (ieee_quo rnd (Sum (floating rnd) zs) (ieee_of_int rnd (int (length zs))))"
    by (simp add: Average_def floating_def)
  show "Average int64 [1, 2, 3] = Inr 2"
    by (simp add: Average_def Sum_def int64_def signed_int_def signed_divide_int_def)
next
  assume "xs \<noteq> [] \<and> int (length xs) < 2 ^ (LENGTH('w) - 1)"
  then show "\<exists>q. Average (signed_int :: 'w word numeric) xs = Inr q
          \<and> sint q = sint (Sum signed_int xs) sdiv int (length xs)"
    by (simp add: Average_signed)
next
  assume "ys \<noteq> [] \<and> int (length ys) < 2 ^ LENGTH('v)"
  then show "\<exists>q. Average (unsigned_int :: 'v word numeric) ys = Inr q
          \<and> uint q = uint (Sum unsigned_int ys) div int (length ys)"
    by (simp add: Average_unsigned)
qed

theorem Average_nonempty_witness:
  "[- 7, 0 :: 8 word] \<noteq> [] \<and> int (length [- 7, 0 :: 8 word]) < 2 ^ (LENGTH(8) - 1)
   \<and> Average int8 [- 7, 0] = Inr (- 3)
   \<and> sint (Sum int8 [- 7, 0]) = - 7 \<and> (- 7 :: int) sdiv 2 = - 3
   \<and> [250, 5 :: 8 word] \<noteq> [] \<and> int (length [250, 5 :: 8 word]) < 2 ^ LENGTH(8)
   \<and> Average uint8 [250, 5] = Inr 127"
  using Average_nonempty [where 'w = 8 and 'v = 8 and xs = "[- 7, 0]" and ys = "[250, 5]"]
  by (simp add: Average_def Sum_def int8_def uint8_def signed_int_def unsigned_int_def
      signed_divide_int_def)

subsection \<open>Maps\<close>

lemma map_index_None:
  "map_index eq m k = None \<longleftrightarrow> (\<forall>k' \<in> set (map fst m). \<not> eq k' k)"
  by (induction eq m k rule: map_index.induct) auto

lemma map_assign_new: "map_index eq m k = None \<Longrightarrow> map_assign eq m k v = m @ [(k, v)]"
  by (induction eq m k rule: map_index.induct) (auto split: if_splits)

lemma map_index_first:
  "j < length m \<Longrightarrow> eq (fst (m ! j)) k \<Longrightarrow> \<forall>j' < j. \<not> eq (fst (m ! j')) k \<Longrightarrow>
     map_index eq m k = Some (snd (m ! j))"
proof (induction m arbitrary: j)
  case Nil
  then show ?case by simp
next
  case (Cons p m)
  show ?case
  proof (cases j)
    case 0
    with Cons.prems show ?thesis by (cases p) simp
  next
    case (Suc j')
    with Cons.prems have "\<not> eq (fst p) k" by auto
    moreover from Cons.prems Suc have "\<forall>i < j'. \<not> eq (fst (m ! i)) k" by auto
    ultimately show ?thesis
      using Cons.IH [of j'] Cons.prems Suc by (cases p) simp
  qed
qed

subsection \<open>Unique and UniqueBy\<close>

lemma unique_entries_snoc:
  "unique_entries (kept @ [v]) = unique_entries kept @ [(v, length kept)]"
  by (simp add: unique_entries_def enumerate_append_eq)

lemma uniqueBy_entries_snoc:
  "uniqueBy_entries is_nil f (kept @ [v])
     = uniqueBy_entries is_nil f kept @ [(f v, \<lparr>pair_index = length kept, pair_value = to_any is_nil v\<rparr>)]"
  by (simp add: uniqueBy_entries_def enumerate_append_eq)

lemma keys_unique_entries: "map fst (unique_entries kept) = kept"
proof (induction kept rule: rev_induct)
  case Nil
  show ?case by (simp add: unique_entries_def)
next
  case (snoc v kept)
  then show ?case by (simp add: unique_entries_snoc)
qed

lemma keys_uniqueBy_entries: "map fst (uniqueBy_entries is_nil f kept) = map f kept"
proof (induction kept rule: rev_induct)
  case Nil
  show ?case by (simp add: uniqueBy_entries_def)
next
  case (snoc v kept)
  then show ?case by (simp add: uniqueBy_entries_snoc)
qed

lemma nth_unique_entries: "j < length kept \<Longrightarrow> unique_entries kept ! j = (kept ! j, j)"
  by (simp add: unique_entries_def nth_enumerate_eq)

lemma nth_uniqueBy_entries:
  "j < length kept \<Longrightarrow>
     uniqueBy_entries is_nil f kept ! j = (f (kept ! j), \<lparr>pair_index = j, pair_value = to_any is_nil (kept ! j)\<rparr>)"
  by (simp add: uniqueBy_entries_def nth_enumerate_eq)

lemma length_unique_entries: "length (unique_entries kept) = length kept"
  by (simp add: unique_entries_def)

lemma length_uniqueBy_entries: "length (uniqueBy_entries is_nil f kept) = length kept"
  by (simp add: uniqueBy_entries_def)

text \<open>
  The first loops compute \<open>firsts_by\<close>, whatever the comparison.
\<close>

lemma Unique_scan_firsts:
  "Unique_scan eq xs (length kept) (unique_entries kept)
     = (length (firsts_by eq (\<lambda>x. x) kept xs), unique_entries (firsts_by eq (\<lambda>x. x) kept xs))"
proof (induction xs arbitrary: kept)
  case Nil
  show ?case by simp
next
  case (Cons v rest)
  show ?case
  proof (cases "\<exists>u \<in> set kept. eq u v")
    case True
    then have "map_index eq (unique_entries kept) v \<noteq> None"
      by (simp add: map_index_None keys_unique_entries)
    with True Cons.IH [of kept] show ?thesis by auto
  next
    case False
    then have none: "map_index eq (unique_entries kept) v = None"
      by (simp add: map_index_None keys_unique_entries)
    have "Unique_scan eq (v # rest) (length kept) (unique_entries kept)
            = Unique_scan eq rest (length (kept @ [v])) (unique_entries (kept @ [v]))"
      using none by (simp add: map_assign_new unique_entries_snoc)
    with False Cons.IH [of "kept @ [v]"] show ?thesis by simp
  qed
qed

lemma UniqueBy_scan_firsts:
  "UniqueBy_scan eq is_nil f xs (length kept) (uniqueBy_entries is_nil f kept)
     = (length (firsts_by eq f kept xs), uniqueBy_entries is_nil f (firsts_by eq f kept xs))"
proof (induction xs arbitrary: kept)
  case Nil
  show ?case by simp
next
  case (Cons v rest)
  show ?case
  proof (cases "\<exists>u \<in> set kept. eq (f u) (f v)")
    case True
    then have "map_index eq (uniqueBy_entries is_nil f kept) (f v) \<noteq> None"
      by (simp add: map_index_None keys_uniqueBy_entries)
    with True Cons.IH [of kept] show ?thesis by auto
  next
    case False
    then have none: "map_index eq (uniqueBy_entries is_nil f kept) (f v) = None"
      by (simp add: map_index_None keys_uniqueBy_entries)
    have "UniqueBy_scan eq is_nil f (v # rest) (length kept) (uniqueBy_entries is_nil f kept)
            = UniqueBy_scan eq is_nil f rest (length (kept @ [v])) (uniqueBy_entries is_nil f (kept @ [v]))"
      using none by (simp add: map_assign_new uniqueBy_entries_snoc)
    with False Cons.IH [of "kept @ [v]"] show ?thesis by simp
  qed
qed

text \<open>
  When the comparison is transitive, the elements kept are those the specification
  describes: an element is dropped because an earlier element with an equal key was
  kept, or because an earlier element with an equal key was itself dropped for an
  element kept before it.
\<close>

lemma firsts_by_index:
  assumes "transp eq"
  shows "firsts_by eq f kept xs
     = kept @ map (\<lambda>i. xs ! i)
         (filter (\<lambda>i. \<not> (\<exists>u \<in> set kept \<union> set (take i xs). eq (f u) (f (xs ! i))))
            [0..<length xs])"
proof (induction xs arbitrary: kept)
  case Nil
  show ?case by simp
next
  case (Cons v rest)
  have upt: "[0..<length (v # rest)] = 0 # map Suc [0..<length rest]"
    by (simp add: upt_conv_Cons map_Suc_upt del: upt_Suc)
  let ?P = "\<lambda>kept i. \<not> (\<exists>u \<in> set kept \<union> set (take i rest). eq (f u) (f (rest ! i)))"
  let ?Q = "\<lambda>i. \<not> (\<exists>u \<in> set kept \<union> set (take i (v # rest)). eq (f u) (f ((v # rest) ! i)))"
  have tail: "filter ?Q (map Suc [0..<length rest]) = map Suc (filter (?Q \<circ> Suc) [0..<length rest])"
    by (simp add: filter_map)
  have nth: "map (\<lambda>i. (v # rest) ! i) (map Suc is) = map (\<lambda>i. rest ! i) is" for "is"
    by simp
  show ?case
  proof (cases "\<exists>u \<in> set kept. eq (f u) (f v)")
    case True
    then obtain k where k: "k \<in> set kept" "eq (f k) (f v)" by blast
    have "filter (?Q \<circ> Suc) [0..<length rest] = filter (?P kept) [0..<length rest]"
    proof (rule filter_cong [OF refl])
      fix i assume "i \<in> set [0..<length rest]"
      have "eq (f v) (f (rest ! i)) \<Longrightarrow> eq (f k) (f (rest ! i))"
        using assms k(2) by (rule transpD)
      with k(1) show "(?Q \<circ> Suc) i = ?P kept i" by auto
    qed
    with True show ?thesis
      unfolding upt by (simp only: filter.simps firsts_by.simps Cons.IH tail nth list.map
          if_True if_False) simp
  next
    case False
    have "filter (?Q \<circ> Suc) [0..<length rest] = filter (?P (kept @ [v])) [0..<length rest]"
      by (rule filter_cong [OF refl]) auto
    with False show ?thesis
      unfolding upt by (simp only: filter.simps firsts_by.simps Cons.IH tail nth list.map
          if_True if_False) simp
  qed
qed

lemma first_occurrences_by_firsts:
  "transp eq \<Longrightarrow> first_occurrences_by eq f xs = firsts_by eq f [] xs"
  by (simp add: first_occurrences_by_def firsts_by_index)

lemma first_occurrences_firsts:
  "transp eq \<Longrightarrow> first_occurrences eq xs = firsts_by eq (\<lambda>x. x) [] xs"
  by (simp add: first_occurrences_def firsts_by_index)

lemma unique_entries_Nil: "unique_entries [] = []"
  by (simp add: unique_entries_def)

lemma uniqueBy_entries_Nil: "uniqueBy_entries is_nil f [] = []"
  by (simp add: uniqueBy_entries_def)

text \<open>
  The second loop of \<open>UniqueBy\<close> over entries of the map of the first loop, when no
  element kept is a nil interface value: no type assertion fails, no store is out of
  range, and the entry of the element kept at \<open>j\<close> writes that element at \<open>j\<close>.
\<close>

lemma UniqueBy_fill_entries:
  "set order \<subseteq> set (uniqueBy_entries is_nil f kept) \<Longrightarrow> length result = length kept \<Longrightarrow>
   \<forall>v \<in> set kept. \<not> is_nil v \<Longrightarrow>
     \<exists>r. UniqueBy_fill order result = Inr r \<and> length r = length kept
       \<and> (\<forall>j < length kept.
             r ! j = (if uniqueBy_entries is_nil f kept ! j \<in> set order then kept ! j
                      else result ! j))"
proof (induction order arbitrary: result)
  case Nil
  then show ?case by simp
next
  case (Cons e order)
  obtain k p where e: "e = (k, p)" by (cases e)
  from Cons.prems(1) e obtain j0 where j0: "j0 < length kept"
      "uniqueBy_entries is_nil f kept ! j0 = (k, p)"
    by (auto simp: in_set_conv_nth length_uniqueBy_entries)
  from j0(1) Cons.prems(3) have "\<not> is_nil (kept ! j0)" by simp
  with j0 have p: "p = \<lparr>pair_index = j0, pair_value = AnyOf (kept ! j0)\<rparr>"
    by (simp add: nth_uniqueBy_entries to_any_def)
  have other: "uniqueBy_entries is_nil f kept ! j \<noteq> (k, p)" if "j < length kept" "j \<noteq> j0" for j
    using that p by (simp add: nth_uniqueBy_entries)
  from Cons.prems have "set order \<subseteq> set (uniqueBy_entries is_nil f kept)"
    and "length (result[j0 := kept ! j0]) = length kept"
    by simp_all
  from Cons.IH [OF this Cons.prems(3)]
  obtain r where r: "UniqueBy_fill order (result[j0 := kept ! j0]) = Inr r"
    "length r = length kept"
    "\<forall>j < length kept. r ! j = (if uniqueBy_entries is_nil f kept ! j \<in> set order then kept ! j
                                 else (result[j0 := kept ! j0]) ! j)"
    by blast
  have "\<forall>j < length kept.
          r ! j = (if uniqueBy_entries is_nil f kept ! j \<in> set (e # order) then kept ! j
                   else result ! j)"
  proof (intro allI impI)
    fix j assume j: "j < length kept"
    show "r ! j = (if uniqueBy_entries is_nil f kept ! j \<in> set (e # order) then kept ! j
                   else result ! j)"
    proof (cases "j = j0")
      case True
      with r(3) j0 e Cons.prems(2) show ?thesis by simp
    next
      case False
      with r(3) j other [OF j False] e show ?thesis by simp
    qed
  qed
  moreover have "UniqueBy_fill (e # order) result = Inr r"
    using r(1) j0(1) p e Cons.prems(2) by simp
  ultimately show ?case using r(2) by blast
qed

text \<open>
  When an entry visited holds the nil \<^verbatim>\<open>any\<close>, the second loop panics at a type
  assertion: at that entry if not before, since no store is out of range.
\<close>

lemma UniqueBy_fill_nil:
  "set order \<subseteq> set (uniqueBy_entries is_nil f kept) \<Longrightarrow> length result = length kept \<Longrightarrow>
   \<exists>e \<in> set order. pair_value (snd e) = AnyNil \<Longrightarrow>
     UniqueBy_fill order result = Inl TypeAssertionError"
proof (induction order arbitrary: result)
  case Nil
  then show ?case by simp
next
  case (Cons e order)
  obtain k p where e: "e = (k, p)" by (cases e)
  from Cons.prems(1) e obtain j0 where j0: "j0 < length kept"
      "uniqueBy_entries is_nil f kept ! j0 = (k, p)"
    by (auto simp: in_set_conv_nth length_uniqueBy_entries)
  then have p: "p = \<lparr>pair_index = j0, pair_value = to_any is_nil (kept ! j0)\<rparr>"
    by (simp add: nth_uniqueBy_entries)
  show ?case
  proof (cases "is_nil (kept ! j0)")
    case True
    with p e show ?thesis by (simp add: to_any_def)
  next
    case False
    with p have v: "pair_value p = AnyOf (kept ! j0)" by (simp add: to_any_def)
    with Cons.prems(3) e have later: "\<exists>e \<in> set order. pair_value (snd e) = AnyNil"
      by auto
    from Cons.prems have "set order \<subseteq> set (uniqueBy_entries is_nil f kept)"
      and "length (result[j0 := kept ! j0]) = length kept"
      by simp_all
    from Cons.IH [OF this later]
    have "UniqueBy_fill order (result[j0 := kept ! j0]) = Inl TypeAssertionError" .
    with v p e j0(1) Cons.prems(2) show ?thesis by simp
  qed
qed

text \<open>
  For a transitive comparison of keys (the operator \<^verbatim>\<open>==\<close> of every comparable type
  is), and whatever the order in which the second loop visits the map: when none of
  the elements whose key is equal to the key of no earlier element is a nil interface
  value, \<open>UniqueBy\<close> returns these elements, without a panic, in the order of the input:
  the first element of each key, the element itself.
\<close>

theorem UniqueBy_first_occurrences:
  assumes "transp eq"
    and "\<forall>x \<in> set (first_occurrences_by eq f xs). \<not> is_nil x"
    and "range_visits order (snd (UniqueBy_scan eq is_nil f xs 0 []))"
  shows "UniqueBy eq is_nil order z xs f = Inr (first_occurrences_by eq f xs)"
proof -
  let ?kept = "firsts_by eq f [] xs"
  have kept: "first_occurrences_by eq f xs = ?kept"
    by (rule first_occurrences_by_firsts [OF assms(1)])
  have scan: "UniqueBy_scan eq is_nil f xs 0 [] = (length ?kept, uniqueBy_entries is_nil f ?kept)"
    using UniqueBy_scan_firsts [of eq is_nil f xs "[]"] unfolding uniqueBy_entries_Nil by simp
  with assms(3) have "mset order = mset (uniqueBy_entries is_nil f ?kept)"
    by (simp add: range_visits_def)
  then have vis: "set order = set (uniqueBy_entries is_nil f ?kept)"
    by (rule mset_eq_setD)
  then have sub: "set order \<subseteq> set (uniqueBy_entries is_nil f ?kept)" by simp
  have len: "length (replicate (length ?kept) z) = length ?kept" by simp
  from assms(2) have nonil: "\<forall>v \<in> set ?kept. \<not> is_nil v"
    unfolding kept .
  from UniqueBy_fill_entries [OF sub len nonil]
  obtain r where r: "UniqueBy_fill order (replicate (length ?kept) z) = Inr r"
    "length r = length ?kept"
    "\<forall>j < length ?kept. r ! j = (if uniqueBy_entries is_nil f ?kept ! j \<in> set order then ?kept ! j
                                  else replicate (length ?kept) z ! j)"
    by auto
  have "\<forall>j < length ?kept. uniqueBy_entries is_nil f ?kept ! j \<in> set order"
    unfolding vis by (simp add: length_uniqueBy_entries)
  with r have "r = ?kept"
    by (simp add: list_eq_iff_nth_eq)
  with r(1) scan show ?thesis
    by (simp add: UniqueBy_def kept)
qed

theorem UniqueBy_first_occurrences_witness:
  "transp ((=) :: nat \<Rightarrow> nat \<Rightarrow> bool)
   \<and> UniqueBy_scan (=) (\<lambda>x. False) (\<lambda>x. x mod 3) [4, 7, 3, 9, 5, 8 :: nat] 0 []
       = (3, [(1, \<lparr>pair_index = 0, pair_value = AnyOf 4\<rparr>),
              (0, \<lparr>pair_index = 1, pair_value = AnyOf 3\<rparr>),
              (2, \<lparr>pair_index = 2, pair_value = AnyOf 5\<rparr>)])
   \<and> range_visits
        [(2, \<lparr>pair_index = 2, pair_value = AnyOf 5\<rparr>), (1, \<lparr>pair_index = 0, pair_value = AnyOf 4\<rparr>),
         (0 :: nat, \<lparr>pair_index = 1, pair_value = AnyOf (3 :: nat)\<rparr>)]
        (snd (UniqueBy_scan (=) (\<lambda>x. False) (\<lambda>x. x mod 3) [4, 7, 3, 9, 5, 8 :: nat] 0 []))
   \<and> UniqueBy (=) (\<lambda>x. False)
        [(2, \<lparr>pair_index = 2, pair_value = AnyOf 5\<rparr>), (1, \<lparr>pair_index = 0, pair_value = AnyOf 4\<rparr>),
         (0 :: nat, \<lparr>pair_index = 1, pair_value = AnyOf (3 :: nat)\<rparr>)]
        0 [4, 7, 3, 9, 5, 8 :: nat] (\<lambda>x. x mod 3) = Inr [4, 3, 5]
   \<and> first_occurrences_by (=) (\<lambda>x. x mod 3) [4, 7, 3, 9, 5, 8 :: nat] = [4, 3, 5]"
proof -
  let ?order = "[(2, \<lparr>pair_index = 2, pair_value = AnyOf 5\<rparr>),
         (1, \<lparr>pair_index = 0, pair_value = AnyOf 4\<rparr>),
         (0 :: nat, \<lparr>pair_index = 1, pair_value = AnyOf (3 :: nat)\<rparr>)]"
  have rep: "replicate 3 (0 :: nat) = [0, 0, 0]"
    by (simp add: numeral_3_eq_3)
  have t: "transp ((=) :: nat \<Rightarrow> nat \<Rightarrow> bool)"
    by (simp add: transp_def)
  have nonil: "\<forall>x \<in> set (first_occurrences_by (=) (\<lambda>x. x mod 3) [4, 7, 3, 9, 5, 8 :: nat]).
      \<not> (\<lambda>x. False) x"
    by simp
  have scan: "UniqueBy_scan (=) (\<lambda>x. False) (\<lambda>x. x mod 3) [4, 7, 3, 9, 5, 8 :: nat] 0 []
       = (3, [(1, \<lparr>pair_index = 0, pair_value = AnyOf 4\<rparr>),
              (0, \<lparr>pair_index = 1, pair_value = AnyOf 3\<rparr>),
              (2, \<lparr>pair_index = 2, pair_value = AnyOf 5\<rparr>)])"
    by (simp add: to_any_def)
  have vis: "range_visits ?order
        (snd (UniqueBy_scan (=) (\<lambda>x. False) (\<lambda>x. x mod 3) [4, 7, 3, 9, 5, 8 :: nat] 0 []))"
    unfolding scan by (simp add: range_visits_def)
  have fill: "UniqueBy_fill ?order [0, 0, 0] = Inr [4, 3, 5]"
    by simp
  have run: "UniqueBy (=) (\<lambda>x. False) ?order 0 [4, 7, 3, 9, 5, 8 :: nat] (\<lambda>x. x mod 3)
      = Inr [4, 3, 5]"
    by (simp add: UniqueBy_def scan rep fill)
  from UniqueBy_first_occurrences [OF t nonil vis, of 0]
  have "first_occurrences_by (=) (\<lambda>x. x mod 3) [4, 7, 3, 9, 5, 8 :: nat] = [4, 3, 5]"
    unfolding run by (simp only: sum.inject)
  with t scan vis run show ?thesis by blast
qed

text \<open>
  When one of these elements is a nil interface value, \<open>UniqueBy\<close> panics, whatever the
  order of the visit.
\<close>

theorem UniqueBy_nil_panics:
  assumes "transp eq"
    and "\<exists>x \<in> set (first_occurrences_by eq f xs). is_nil x"
    and "range_visits order (snd (UniqueBy_scan eq is_nil f xs 0 []))"
  shows "UniqueBy eq is_nil order z xs f = Inl TypeAssertionError"
proof -
  let ?kept = "firsts_by eq f [] xs"
  have kept: "first_occurrences_by eq f xs = ?kept"
    by (rule first_occurrences_by_firsts [OF assms(1)])
  have scan: "UniqueBy_scan eq is_nil f xs 0 [] = (length ?kept, uniqueBy_entries is_nil f ?kept)"
    using UniqueBy_scan_firsts [of eq is_nil f xs "[]"] unfolding uniqueBy_entries_Nil by simp
  with assms(3) have "mset order = mset (uniqueBy_entries is_nil f ?kept)"
    by (simp add: range_visits_def)
  then have vis: "set order = set (uniqueBy_entries is_nil f ?kept)"
    by (rule mset_eq_setD)
  then have sub: "set order \<subseteq> set (uniqueBy_entries is_nil f ?kept)" by simp
  have len: "length (replicate (length ?kept) z) = length ?kept" by simp
  from assms(2) obtain j where j: "j < length ?kept" "is_nil (?kept ! j)"
    unfolding kept by (auto simp: in_set_conv_nth)
  then have "uniqueBy_entries is_nil f ?kept ! j \<in> set order"
    unfolding vis by (simp add: length_uniqueBy_entries)
  moreover have "pair_value (snd (uniqueBy_entries is_nil f ?kept ! j)) = AnyNil"
    using j by (simp add: nth_uniqueBy_entries to_any_def)
  ultimately have "\<exists>e \<in> set order. pair_value (snd e) = AnyNil" by blast
  from UniqueBy_fill_nil [OF sub len this] scan show ?thesis
    by (simp add: UniqueBy_def)
qed

text \<open>
  Claim C4 fails for a slice of an interface type that holds a nil value.  On the slice
  \<open>[nil]\<close> of type \<^verbatim>\<open>[]any\<close> (\<open>None\<close> is the nil interface value, \<open>Some n\<close> a value
  \<open>n\<close> held in the interface) the first loop stores the nil \<^verbatim>\<open>any\<close> in the entry of the
  key, and the type assertion of the second loop panics.  The first occurrences are
  \<open>[nil]\<close>, and \<open>Unique\<close> returns them on the same slice: it has no type assertion.
\<close>

theorem UniqueBy_nil_interface:
  "UniqueBy_scan (=) (\<lambda>v. v = None) (\<lambda>v. 7) [None :: nat option] 0 []
      = (1, [(7 :: nat, \<lparr>pair_index = 0, pair_value = AnyNil\<rparr>)])
   \<and> UniqueBy (=) (\<lambda>v. v = None) [(7 :: nat, \<lparr>pair_index = 0, pair_value = AnyNil\<rparr>)]
         None [None :: nat option] (\<lambda>v. 7) = Inl TypeAssertionError
   \<and> first_occurrences_by (=) (\<lambda>v. 7 :: nat) [None :: nat option] = [None]
   \<and> Unique (=) [(None, 0)] None [None :: nat option] = Inr [None]"
proof -
  have rep: "replicate 1 (None :: nat option) = [None]"
    by simp
  have scan: "UniqueBy_scan (=) (\<lambda>v. v = None) (\<lambda>v. 7) [None :: nat option] 0 []
      = (1, [(7 :: nat, \<lparr>pair_index = 0, pair_value = AnyNil\<rparr>)])"
    by (simp add: to_any_def)
  have run: "UniqueBy (=) (\<lambda>v. v = None) [(7 :: nat, \<lparr>pair_index = 0, pair_value = AnyNil\<rparr>)]
         None [None :: nat option] (\<lambda>v. 7) = Inl TypeAssertionError"
    unfolding UniqueBy_def scan by simp
  have first: "first_occurrences_by (=) (\<lambda>v. 7 :: nat) [None :: nat option] = [None]"
    by (simp add: first_occurrences_by_def)
  have uscan: "Unique_scan (=) [None :: nat option] 0 [] = (1, [(None, 0)])"
    by simp
  have urun: "Unique (=) [(None, 0)] None [None :: nat option] = Inr [None]"
    unfolding Unique_def uscan by simp
  from scan run first urun show ?thesis by (intro conjI)
qed

text \<open>
  The second loop of \<open>Unique\<close> finds the position of a key by reading the map.  That
  gives the position of the element kept at \<open>j\<close> when the element is equal to itself
  and to no element kept before it.
\<close>

lemma firsts_by_subset: "set (firsts_by eq f kept xs) \<subseteq> set kept \<union> set xs"
proof (induction xs arbitrary: kept)
  case Nil
  show ?case by simp
next
  case (Cons v rest)
  show ?case
  proof (cases "\<exists>u \<in> set kept. eq (f u) (f v)")
    case True
    with Cons.IH [of kept] show ?thesis by auto
  next
    case False
    with Cons.IH [of "kept @ [v]"] show ?thesis by auto
  qed
qed

lemma firsts_by_apart:
  "\<forall>j < length kept. \<forall>j' < j. \<not> eq (f (kept ! j')) (f (kept ! j)) \<Longrightarrow>
   \<forall>j < length (firsts_by eq f kept xs). \<forall>j' < j.
      \<not> eq (f (firsts_by eq f kept xs ! j')) (f (firsts_by eq f kept xs ! j))"
proof (induction xs arbitrary: kept)
  case Nil
  then show ?case by simp
next
  case (Cons v rest)
  show ?case
  proof (cases "\<exists>u \<in> set kept. eq (f u) (f v)")
    case True
    with Cons.IH [OF Cons.prems] show ?thesis by simp
  next
    case False
    have "\<forall>j < length (kept @ [v]). \<forall>j' < j. \<not> eq (f ((kept @ [v]) ! j')) (f ((kept @ [v]) ! j))"
    proof (intro allI impI)
      fix j j' assume j: "j < length (kept @ [v])" and j': "j' < j"
      show "\<not> eq (f ((kept @ [v]) ! j')) (f ((kept @ [v]) ! j))"
      proof (cases "j < length kept")
        case True
        with Cons.prems j' show ?thesis by (simp add: nth_append)
      next
        case last: False
        with j have "j = length kept" by simp
        moreover from this j' have "kept ! j' \<in> set kept" by simp
        ultimately show ?thesis using False j' by (auto simp: nth_append)
      qed
    qed
    from Cons.IH [OF this] False show ?thesis by simp
  qed
qed

lemma map_index_unique_entries:
  assumes "j < length kept" and "eq (kept ! j) (kept ! j)"
    and "\<forall>j' < j. \<not> eq (kept ! j') (kept ! j)"
  shows "map_index eq (unique_entries kept) (kept ! j) = Some j"
proof -
  have "map_index eq (unique_entries kept) (kept ! j) = Some (snd (unique_entries kept ! j))"
  proof (rule map_index_first)
    show "j < length (unique_entries kept)"
      using assms(1) by (simp add: length_unique_entries)
    show "eq (fst (unique_entries kept ! j)) (kept ! j)"
      using assms(1,2) by (simp add: nth_unique_entries)
    show "\<forall>j' < j. \<not> eq (fst (unique_entries kept ! j')) (kept ! j)"
      using assms(1,3) by (simp add: nth_unique_entries)
  qed
  then show ?thesis using assms(1) by (simp add: nth_unique_entries)
qed

lemma Unique_fill_entries:
  assumes "\<forall>j < length kept. eq (kept ! j) (kept ! j)"
    and "\<forall>j < length kept. \<forall>j' < j. \<not> eq (kept ! j') (kept ! j)"
  shows "set order \<subseteq> set (unique_entries kept) \<Longrightarrow> length result = length kept \<Longrightarrow>
     \<exists>r. Unique_fill eq (unique_entries kept) order result = Inr r \<and> length r = length kept
       \<and> (\<forall>j < length kept.
             r ! j = (if unique_entries kept ! j \<in> set order then kept ! j else result ! j))"
proof (induction order arbitrary: result)
  case Nil
  then show ?case by simp
next
  case (Cons e order)
  obtain k i where e: "e = (k, i)" by (cases e)
  from Cons.prems(1) e obtain j0 where j0: "j0 < length kept"
      "unique_entries kept ! j0 = (k, i)"
    by (auto simp: in_set_conv_nth length_unique_entries)
  then have k: "k = kept ! j0" and i: "i = j0"
    by (auto simp: nth_unique_entries)
  have found: "map_index eq (unique_entries kept) k = Some j0"
    unfolding k using j0(1) assms by (intro map_index_unique_entries) auto
  have other: "unique_entries kept ! j \<noteq> (k, i)" if "j < length kept" "j \<noteq> j0" for j
    using that i by (simp add: nth_unique_entries)
  from Cons.prems have "set order \<subseteq> set (unique_entries kept)"
    and "length (result[j0 := k]) = length kept"
    by simp_all
  from Cons.IH [OF this]
  obtain r where r: "Unique_fill eq (unique_entries kept) order (result[j0 := k]) = Inr r"
    "length r = length kept"
    "\<forall>j < length kept. r ! j = (if unique_entries kept ! j \<in> set order then kept ! j
                                 else (result[j0 := k]) ! j)"
    by blast
  have "\<forall>j < length kept.
          r ! j = (if unique_entries kept ! j \<in> set (e # order) then kept ! j else result ! j)"
  proof (intro allI impI)
    fix j assume j: "j < length kept"
    show "r ! j = (if unique_entries kept ! j \<in> set (e # order) then kept ! j else result ! j)"
    proof (cases "j = j0")
      case True
      with r(3) j0 e k Cons.prems(2) show ?thesis by simp
    next
      case False
      with r(3) j other [OF j False] e show ?thesis by simp
    qed
  qed
  moreover have "Unique_fill eq (unique_entries kept) (e # order) result = Inr r"
    using r(1) j0(1) found e Cons.prems(2) by simp
  ultimately show ?case using r(2) by blast
qed

text \<open>
  \<open>Unique\<close> on a slice all of whose elements are equal to themselves, for a transitive
  comparison and whatever the order in which the second loop visits the map: the result
  is, without a panic, the elements that are equal to no earlier element, in the order
  of the input.
\<close>

theorem Unique_first_occurrences:
  assumes "transp eq"
    and "\<forall>x \<in> set xs. eq x x"
    and "range_visits order (snd (Unique_scan eq xs 0 []))"
  shows "Unique eq order z xs = Inr (first_occurrences eq xs)"
proof -
  let ?kept = "firsts_by eq (\<lambda>x. x) [] xs"
  have scan: "Unique_scan eq xs 0 [] = (length ?kept, unique_entries ?kept)"
    using Unique_scan_firsts [of eq xs "[]"] unfolding unique_entries_Nil by simp
  with assms(3) have "mset order = mset (unique_entries ?kept)"
    by (simp add: range_visits_def)
  then have vis: "set order = set (unique_entries ?kept)"
    by (rule mset_eq_setD)
  have refl: "\<forall>j < length ?kept. eq (?kept ! j) (?kept ! j)"
    using assms(2) firsts_by_subset [of eq "\<lambda>x. x" "[]" xs] by (auto simp: subset_iff)
  have apart: "\<forall>j < length ?kept. \<forall>j' < j. \<not> eq (?kept ! j') (?kept ! j)"
    using firsts_by_apart [of "[]" eq "\<lambda>x. x" xs] by simp
  have sub: "set order \<subseteq> set (unique_entries ?kept)"
    using vis by simp
  from Unique_fill_entries [OF refl apart sub, of "replicate (length ?kept) z"]
  obtain r where r: "Unique_fill eq (unique_entries ?kept) order (replicate (length ?kept) z) = Inr r"
    "length r = length ?kept"
    "\<forall>j < length ?kept. r ! j = (if unique_entries ?kept ! j \<in> set order then ?kept ! j
                                  else replicate (length ?kept) z ! j)"
    by auto
  have "\<forall>j < length ?kept. unique_entries ?kept ! j \<in> set order"
    unfolding vis by (simp add: length_unique_entries)
  with r have "r = ?kept"
    by (simp add: list_eq_iff_nth_eq)
  with r(1) scan show ?thesis
    by (simp add: Unique_def first_occurrences_firsts [OF assms(1)])
qed

theorem Unique_first_occurrences_witness:
  "transp ((=) :: int \<Rightarrow> int \<Rightarrow> bool)
   \<and> Unique_scan (=) [1, 2, 2, 3, 1 :: int] 0 [] = (3, [(1, 0), (2, 1), (3, 2)])
   \<and> range_visits [(3, 2), (1, 0), (2 :: int, 1 :: nat)]
         (snd (Unique_scan (=) [1, 2, 2, 3, 1 :: int] 0 []))
   \<and> Unique (=) [(3, 2), (1, 0), (2, 1)] 0 [1, 2, 2, 3, 1 :: int] = Inr [1, 2, 3]
   \<and> first_occurrences (=) [1, 2, 2, 3, 1 :: int] = [1, 2, 3]"
proof -
  have t: "transp ((=) :: int \<Rightarrow> int \<Rightarrow> bool)"
    by (simp add: transp_def)
  have refl: "\<forall>x \<in> set [1, 2, 2, 3, 1 :: int]. x = x"
    by simp
  have scan: "Unique_scan (=) [1, 2, 2, 3, 1 :: int] 0 [] = (3, [(1, 0), (2, 1), (3, 2)])"
    by simp
  have vis: "range_visits [(3, 2), (1, 0), (2 :: int, 1 :: nat)]
         (snd (Unique_scan (=) [1, 2, 2, 3, 1 :: int] 0 []))"
    unfolding scan by (simp add: range_visits_def)
  have rep: "replicate 3 (0 :: int) = [0, 0, 0]"
    by (simp add: numeral_3_eq_3)
  have fill: "Unique_fill (=) [(1, 0), (2, 1), (3, 2)] [(3, 2), (1, 0), (2 :: int, 1)] [0, 0, 0]
      = Inr [1, 2, 3]"
    by simp
  have run: "Unique (=) [(3, 2), (1, 0), (2, 1)] 0 [1, 2, 2, 3, 1 :: int] = Inr [1, 2, 3]"
    by (simp add: Unique_def scan rep fill)
  from Unique_first_occurrences [OF t refl vis, of 0]
  have "first_occurrences (=) [1, 2, 2, 3, 1 :: int] = [1, 2, 3]"
    unfolding run by (simp only: sum.inject)
  with t scan vis run show ?thesis by blast
qed

text \<open>
  Claim C3 fails for a slice of floating-point numbers that holds a NaN.  On the slice
  \<open>[1, NaN]\<close> the first loop gives the map two entries, \<open>1\<close> at position \<open>0\<close> and the NaN at
  position \<open>1\<close>.  In the second loop the map is read at the key of each entry; the NaN is
  not found, the read gives \<open>0\<close>, and the NaN is stored at position \<open>0\<close> as \<open>1\<close> is.  In
  either order of the visit position \<open>1\<close> keeps the zero value, which is no element of
  the input, and one of the two elements is lost; the first occurrences are \<open>[1, NaN]\<close>.
  \<open>UniqueBy\<close> with the identity as the key function returns them: its second loop
  uses the position stored in the entry.
\<close>

theorem Unique_NaN:
  "Unique_scan ieee_eq [Fin False 1, NaN] 0 [] = (2, [(Fin False 1, 0), (NaN, 1)])
   \<and> Unique ieee_eq [(Fin False 1, 0), (NaN, 1)] (Fin False 0) [Fin False 1, NaN]
       = Inr [NaN, Fin False 0]
   \<and> Unique ieee_eq [(NaN, 1), (Fin False 1, 0)] (Fin False 0) [Fin False 1, NaN]
       = Inr [Fin False 1, Fin False 0]
   \<and> first_occurrences ieee_eq [Fin False 1, NaN] = [Fin False 1, NaN]
   \<and> UniqueBy ieee_eq (\<lambda>x. False)
         [(NaN, \<lparr>pair_index = 1, pair_value = AnyOf NaN\<rparr>),
          (Fin False 1, \<lparr>pair_index = 0, pair_value = AnyOf (Fin False 1)\<rparr>)]
         (Fin False 0) [Fin False 1, NaN] (\<lambda>x. x) = Inr [Fin False 1, NaN]"
proof -
  have rep: "replicate 2 (Fin False 0) = [Fin False 0, Fin False 0]"
    by (simp add: numeral_2_eq_2)
  have scan: "Unique_scan ieee_eq [Fin False 1, NaN] 0 [] = (2, [(Fin False 1, 0), (NaN, 1)])"
    by simp
  have fill1: "Unique_fill ieee_eq [(Fin False 1, 0), (NaN, 1)] [(Fin False 1, 0), (NaN, 1)]
       [Fin False 0, Fin False 0] = Inr [NaN, Fin False 0]"
    by simp
  have fill2: "Unique_fill ieee_eq [(Fin False 1, 0), (NaN, 1)] [(NaN, 1), (Fin False 1, 0)]
       [Fin False 0, Fin False 0] = Inr [Fin False 1, Fin False 0]"
    by simp
  have upt2: "[0..<2] = [0, 1]"
    by (simp add: numeral_2_eq_2)
  have first: "first_occurrences ieee_eq [Fin False 1, NaN] = [Fin False 1, NaN]"
    by (simp add: first_occurrences_def upt2)
  have scanBy: "UniqueBy_scan ieee_eq (\<lambda>x. False) (\<lambda>x. x) [Fin False 1, NaN] 0 []
       = (2, [(Fin False 1, \<lparr>pair_index = 0, pair_value = AnyOf (Fin False 1)\<rparr>),
              (NaN, \<lparr>pair_index = 1, pair_value = AnyOf NaN\<rparr>)])"
    by (simp add: Let_def to_any_def)
  have fillBy: "UniqueBy_fill
         [(NaN, \<lparr>pair_index = 1, pair_value = AnyOf NaN\<rparr>),
          (Fin False 1, \<lparr>pair_index = 0, pair_value = AnyOf (Fin False 1)\<rparr>)]
         [Fin False 0, Fin False 0] = Inr [Fin False 1, NaN]"
    by simp
  have run1: "Unique ieee_eq [(Fin False 1, 0), (NaN, 1)] (Fin False 0) [Fin False 1, NaN]
       = Inr [NaN, Fin False 0]"
    unfolding Unique_def scan by (simp add: rep fill1)
  have run2: "Unique ieee_eq [(NaN, 1), (Fin False 1, 0)] (Fin False 0) [Fin False 1, NaN]
       = Inr [Fin False 1, Fin False 0]"
    unfolding Unique_def scan by (simp add: rep fill2)
  have runBy: "UniqueBy ieee_eq (\<lambda>x. False)
         [(NaN, \<lparr>pair_index = 1, pair_value = AnyOf NaN\<rparr>),
          (Fin False 1, \<lparr>pair_index = 0, pair_value = AnyOf (Fin False 1)\<rparr>)]
         (Fin False 0) [Fin False 1, NaN] (\<lambda>x. x) = Inr [Fin False 1, NaN]"
    unfolding UniqueBy_def scanBy by (simp add: rep fillBy)
  from scan run1 run2 first runBy show ?thesis
    by (intro conjI)
qed

subsection \<open>Associate\<close>

text \<open>
  For a symmetric and transitive comparison an assignment changes what the map holds at
  the keys equal to the assigned key, and at no other key.
\<close>

lemma map_index_assign:
  assumes "symp eq" and "transp eq"
  shows "map_index eq (map_assign eq m k v) k'
     = (if eq k k' then Some v else map_index eq m k')"
proof (induction m)
  case Nil
  show ?case by simp
next
  case (Cons e m)
  obtain k0 v0 where e: "e = (k0, v0)" by (cases e)
  show ?case
  proof (cases "eq k0 k")
    case True
    have "\<not> eq k0 k'" if "\<not> eq k k'"
    proof
      assume "eq k0 k'"
      moreover from True assms(1) have "eq k k0" by (rule sympD [rotated])
      ultimately have "eq k k'" using assms(2) by (meson transpD)
      with that show False by simp
    qed
    with True e show ?thesis by auto
  next
    case False
    have "\<not> eq k0 k'" if "eq k k'"
    proof
      assume "eq k0 k'"
      moreover from that assms(1) have "eq k' k" by (rule sympD [rotated])
      ultimately have "eq k0 k" using assms(2) by (meson transpD)
      with False show False by simp
    qed
    with False e Cons.IH show ?thesis by auto
  qed
qed

text \<open>
  The loop assigns the pairs of \<open>zip keys values\<close> in order: it stops at the end of the
  shorter slice.
\<close>

lemma assign_pair_apply: "assign_pair eq (k, v) m = map_assign eq m k v"
  by (simp add: assign_pair_def)

lemma Associate_loop_fold:
  "Associate_loop eq vals i ks result = fold (assign_pair eq) (zip ks (drop i vals)) result"
proof (induction ks arbitrary: i result)
  case Nil
  show ?case by simp
next
  case (Cons k ks)
  show ?case
  proof (cases "i \<ge> length vals")
    case True
    then show ?thesis by simp
  next
    case False
    then have d: "drop i vals = vals ! i # drop (Suc i) vals"
      by (simp add: Cons_nth_drop_Suc)
    have "Associate_loop eq vals i (k # ks) result
            = Associate_loop eq vals (Suc i) ks (map_assign eq result k (vals ! i))"
      using False by simp
    also have "\<dots> = fold (assign_pair eq) (zip ks (drop (Suc i) vals))
                        (map_assign eq result k (vals ! i))"
      by (rule Cons.IH)
    also have "\<dots> = fold (assign_pair eq) (zip (k # ks) (drop i vals)) result"
      unfolding d by (simp add: assign_pair_apply)
    finally show ?thesis .
  qed
qed

lemma fold_assign_found:
  assumes "symp eq" and "transp eq"
  shows "map_index eq (fold (assign_pair eq) ps m) k \<noteq> None
     \<longleftrightarrow> map_index eq m k \<noteq> None \<or> (\<exists>p \<in> set ps. eq (fst p) k)"
proof (induction ps arbitrary: m)
  case Nil
  show ?case by simp
next
  case (Cons p ps)
  have "map_index eq (assign_pair eq p m) k \<noteq> None
          \<longleftrightarrow> map_index eq m k \<noteq> None \<or> eq (fst p) k"
    by (simp add: assign_pair_def map_index_assign [OF assms])
  with Cons.IH [of "assign_pair eq p m"] show ?case by auto
qed

lemma fold_assign_other:
  assumes "symp eq" and "transp eq"
  shows "\<forall>p \<in> set ps. \<not> eq (fst p) k \<Longrightarrow>
     map_index eq (fold (assign_pair eq) ps m) k = map_index eq m k"
proof (induction ps arbitrary: m)
  case Nil
  show ?case by simp
next
  case (Cons p ps)
  then have "map_index eq (assign_pair eq p m) k = map_index eq m k"
    by (simp add: assign_pair_def map_index_assign [OF assms])
  with Cons.IH [of "assign_pair eq p m"] Cons.prems show ?case by simp
qed

lemma fold_assign_last:
  assumes "symp eq" and "transp eq"
  shows "i < length ps \<Longrightarrow> eq (fst (ps ! i)) k \<Longrightarrow>
     \<forall>j. i < j \<and> j < length ps \<longrightarrow> \<not> eq (fst (ps ! j)) k \<Longrightarrow>
     map_index eq (fold (assign_pair eq) ps m) k = Some (snd (ps ! i))"
proof (induction ps arbitrary: m i)
  case Nil
  then show ?case by simp
next
  case (Cons p ps)
  show ?case
  proof (cases i)
    case 0
    have "\<forall>q \<in> set ps. \<not> eq (fst q) k"
    proof
      fix q assume "q \<in> set ps"
      then obtain j where "j < length ps" "ps ! j = q"
        by (auto simp: in_set_conv_nth)
      with Cons.prems(3) 0 show "\<not> eq (fst q) k"
        by (auto dest: spec [of _ "Suc j"])
    qed
    then have "map_index eq (fold (assign_pair eq) ps (assign_pair eq p m)) k
                 = map_index eq (assign_pair eq p m) k"
      by (rule fold_assign_other [OF assms])
    also have "\<dots> = Some (snd p)"
      using Cons.prems(2) 0 by (simp add: assign_pair_def map_index_assign [OF assms])
    finally show ?thesis using 0 by simp
  next
    case (Suc i')
    have "\<forall>j. i' < j \<and> j < length ps \<longrightarrow> \<not> eq (fst (ps ! j)) k"
    proof (intro allI impI)
      fix j assume "i' < j \<and> j < length ps"
      with Cons.prems(3) Suc show "\<not> eq (fst (ps ! j)) k"
        by (auto dest: spec [of _ "Suc j"])
    qed
    with Cons.IH [of i' "assign_pair eq p m"] Cons.prems(1,2) Suc show ?thesis
      by simp
  qed
qed


text \<open>
  The entries themselves.  An assignment leaves in the map the entries whose key is not
  equal to the assigned key, and puts in the assigned pair; in a map that satisfies the
  invariant at most one entry goes, and the invariant is kept.
\<close>

lemma set_map_assign: "set (map_assign eq m k v) \<subseteq> insert (k, v) (set m)"
  by (induction m) (auto split: if_splits)

lemma map_assign_entries:
  assumes "symp eq" and "transp eq"
  shows "apart eq m \<Longrightarrow>
     mset (map_assign eq m k v) = mset (filter (\<lambda>p. \<not> eq (fst p) k) m) + {#(k, v)#}
     \<and> apart eq (map_assign eq m k v)"
proof (induction m)
  case Nil
  show ?case by simp
next
  case (Cons e m)
  obtain k0 v0 where e: "e = (k0, v0)" by (cases e)
  from Cons.prems e have far: "\<forall>q \<in> set m. \<not> eq k0 (fst q)" and am: "apart eq m"
    by simp_all
  show ?case
  proof (cases "eq k0 k")
    case True
    from True assms(1) have kk0: "eq k k0" by (rule sympD [rotated])
    have none: "\<not> eq (fst q) k \<and> \<not> eq k (fst q)" if q: "q \<in> set m" for q
    proof (intro conjI notI)
      assume "eq (fst q) k"
      with assms(1) have "eq k (fst q)" by (rule sympD)
      with True assms(2) have "eq k0 (fst q)" by (meson transpD)
      with far q show False by simp
    next
      assume "eq k (fst q)"
      with True assms(2) have "eq k0 (fst q)" by (meson transpD)
      with far q show False by simp
    qed
    then have "filter (\<lambda>p. \<not> eq (fst p) k) m = m"
      by (simp add: filter_id_conv)
    with True e am none show ?thesis by simp
  next
    case False
    have k0k: "\<not> eq k k0"
    proof
      assume "eq k k0"
      with assms(1) have "eq k0 k" by (rule sympD)
      with False show False by simp
    qed
    from Cons.IH [OF am]
    have ih: "mset (map_assign eq m k v) = mset (filter (\<lambda>p. \<not> eq (fst p) k) m) + {#(k, v)#}"
      "apart eq (map_assign eq m k v)"
      by simp_all
    have "\<forall>q \<in> set (map_assign eq m k v). \<not> eq k0 (fst q)"
      using set_map_assign [of eq m k v] far False by auto
    with False e ih show ?thesis by simp
  qed
qed

lemma last_writes_snoc:
  "last_writes eq (ps @ [p]) = filter (\<lambda>q. \<not> eq (fst q) (fst p)) (last_writes eq ps) @ [p]"
  by (induction ps) auto

lemma fold_assign_entries:
  assumes "symp eq" and "transp eq"
  shows "mset (fold (assign_pair eq) ps []) = mset (last_writes eq ps)
     \<and> apart eq (fold (assign_pair eq) ps [])"
proof (induction ps rule: rev_induct)
  case Nil
  show ?case by simp
next
  case (snoc p ps)
  let ?m = "fold (assign_pair eq) ps []"
  from snoc have m: "mset ?m = mset (last_writes eq ps)" and a: "apart eq ?m"
    by simp_all
  from map_assign_entries [OF assms a, of "fst p" "snd p"]
  have step: "mset (assign_pair eq p ?m) = mset (filter (\<lambda>q. \<not> eq (fst q) (fst p)) ?m) + {#p#}"
    "apart eq (assign_pair eq p ?m)"
    by (simp_all add: assign_pair_def)
  have "mset (filter (\<lambda>q. \<not> eq (fst q) (fst p)) ?m)
          = mset (filter (\<lambda>q. \<not> eq (fst q) (fst p)) (last_writes eq ps))"
    unfolding mset_filter m ..
  with step show ?case
    by (simp add: last_writes_snoc)
qed

text \<open>
  The pairs that stay, by their indices.
\<close>

lemma last_writes_iff:
  "x \<in> set (last_writes eq ps) \<longleftrightarrow>
     (\<exists>i. i < length ps \<and> ps ! i = x
        \<and> (\<forall>j. i < j \<and> j < length ps \<longrightarrow> \<not> eq (fst (ps ! i)) (fst (ps ! j))))"
proof (induction ps)
  case Nil
  show ?case by simp
next
  case (Cons p ps)
  let ?stays = "\<lambda>qs i. i < length qs \<and> qs ! i = x
        \<and> (\<forall>j. i < j \<and> j < length qs \<longrightarrow> \<not> eq (fst (qs ! i)) (fst (qs ! j)))"
  have later: "?stays (p # ps) (Suc i) \<longleftrightarrow> ?stays ps i" for i
  proof
    assume h: "?stays (p # ps) (Suc i)"
    have "\<not> eq (fst (ps ! i)) (fst (ps ! j))" if "i < j \<and> j < length ps" for j
      using h that by (auto dest: spec [of _ "Suc j"])
    with h show "?stays ps i" by simp
  next
    assume h: "?stays ps i"
    have "\<not> eq (fst ((p # ps) ! Suc i)) (fst ((p # ps) ! j))"
      if "Suc i < j \<and> j < length (p # ps)" for j
    proof -
      from that obtain j' where j': "j = Suc j'" by (cases j) auto
      with that have "i < j' \<and> j' < length ps" by simp
      with h have "\<not> eq (fst (ps ! i)) (fst (ps ! j'))" by blast
      with j' show ?thesis by simp
    qed
    with h show "?stays (p # ps) (Suc i)" by simp
  qed
  have first: "?stays (p # ps) 0 \<longleftrightarrow> p = x \<and> \<not> (\<exists>q \<in> set ps. eq (fst p) (fst q))"
  proof
    assume h: "?stays (p # ps) 0"
    have "\<not> eq (fst p) (fst q)" if "q \<in> set ps" for q
    proof -
      from that obtain j where "j < length ps" "ps ! j = q"
        by (auto simp: in_set_conv_nth)
      with h show ?thesis by (auto dest: spec [of _ "Suc j"])
    qed
    with h show "p = x \<and> \<not> (\<exists>q \<in> set ps. eq (fst p) (fst q))" by auto
  next
    assume h: "p = x \<and> \<not> (\<exists>q \<in> set ps. eq (fst p) (fst q))"
    have "\<not> eq (fst ((p # ps) ! 0)) (fst ((p # ps) ! j))" if "0 < j \<and> j < length (p # ps)" for j
    proof -
      from that obtain j' where "j = Suc j'" by (cases j) auto
      with that h show ?thesis by auto
    qed
    with h show "?stays (p # ps) 0" by simp
  qed
  have split: "(\<exists>i. ?stays (p # ps) i) \<longleftrightarrow> ?stays (p # ps) 0 \<or> (\<exists>i. ?stays (p # ps) (Suc i))"
  proof
    assume "\<exists>i. ?stays (p # ps) i"
    then obtain i where i: "?stays (p # ps) i" ..
    show "?stays (p # ps) 0 \<or> (\<exists>i. ?stays (p # ps) (Suc i))"
    proof (cases i)
      case 0
      with i show ?thesis by blast
    next
      case (Suc i')
      with i show ?thesis by blast
    qed
  next
    assume "?stays (p # ps) 0 \<or> (\<exists>i. ?stays (p # ps) (Suc i))"
    then show "\<exists>i. ?stays (p # ps) i" by blast
  qed
  have "x \<in> set (last_writes eq (p # ps))
          \<longleftrightarrow> (p = x \<and> \<not> (\<exists>q \<in> set ps. eq (fst p) (fst q))) \<or> x \<in> set (last_writes eq ps)"
    by auto
  also have "\<dots> \<longleftrightarrow> ?stays (p # ps) 0 \<or> (\<exists>i. ?stays ps i)"
    unfolding first Cons.IH ..
  also have "\<dots> \<longleftrightarrow> ?stays (p # ps) 0 \<or> (\<exists>i. ?stays (p # ps) (Suc i))"
    unfolding later ..
  also have "\<dots> \<longleftrightarrow> (\<exists>i. ?stays (p # ps) i)"
    unfolding split ..
  finally show ?case .
qed


text \<open>
  Claim C6.  The comparison is taken symmetric and transitive, as \<^verbatim>\<open>==\<close> is on every
  comparable type; it need not be reflexive, so the statement covers keys that are
  floating-point numbers.  Reading the result at a key \<open>k\<close> finds an entry exactly when
  some key at an index present in both slices is equal to \<open>k\<close>, and it returns the value
  at the largest such index: of several indices with one key the last wins.  The
  entries of the result are the pairs \<open>(keys[i], values[i])\<close> at the indices \<open>i\<close> present in
  both slices whose key is equal to no key at a later such index, each as often as it
  is such a pair; a key that is not equal to itself has an entry for each of its
  indices.  Keys beyond the values are skipped, values beyond the keys are ignored, and
  nothing panics: \<open>Associate\<close> is a total function into maps.  The two examples of the
  specification are the last conjuncts.
\<close>

theorem Associate_last_write_wins:
  assumes "symp eq" and "transp eq"
  shows "(map_index eq (Associate eq keys vals) k \<noteq> None
            \<longleftrightarrow> (\<exists>i. i < min (length keys) (length vals) \<and> eq (keys ! i) k))
   \<and> (\<forall>i. i < min (length keys) (length vals) \<and> eq (keys ! i) k
          \<and> (\<forall>j. i < j \<and> j < min (length keys) (length vals) \<longrightarrow> \<not> eq (keys ! j) k)
        \<longrightarrow> map_index eq (Associate eq keys vals) k = Some (vals ! i))
   \<and> set (Associate eq keys vals)
       = {(keys ! i, vals ! i) |i. i < min (length keys) (length vals)
            \<and> (\<forall>j. i < j \<and> j < min (length keys) (length vals) \<longrightarrow> \<not> eq (keys ! i) (keys ! j))}
   \<and> mset (Associate eq keys vals) = mset (last_writes eq (zip keys vals))
   \<and> Associate (=) [''a'', ''b''] [1, 2, 3 :: int] = [(''a'', 1), (''b'', 2)]
   \<and> Associate (=) [''a'', ''a''] [1, 2 :: int] = [(''a'', 2)]"
proof (intro conjI allI impI)
  let ?ps = "zip keys vals"
  let ?n = "min (length keys) (length vals)"
  have A: "Associate eq keys vals = fold (assign_pair eq) ?ps []"
    by (simp add: Associate_def Associate_loop_fold)
  have "(\<exists>p \<in> set ?ps. eq (fst p) k)
          \<longleftrightarrow> (\<exists>i. i < min (length keys) (length vals) \<and> eq (keys ! i) k)"
    by (auto simp: set_zip)
  with fold_assign_found [OF assms, of ?ps "[]" k]
  show "map_index eq (Associate eq keys vals) k \<noteq> None
          \<longleftrightarrow> (\<exists>i. i < min (length keys) (length vals) \<and> eq (keys ! i) k)"
    by (simp add: A)
  show "Associate (=) [''a'', ''b''] [1, 2, 3 :: int] = [(''a'', 1), (''b'', 2)]"
    by (simp add: Associate_def)
  show "Associate (=) [''a'', ''a''] [1, 2 :: int] = [(''a'', 2)]"
    by (simp add: Associate_def)
  show M: "mset (Associate eq keys vals) = mset (last_writes eq ?ps)"
    unfolding A using fold_assign_entries [OF assms, of ?ps] by simp
  then have S: "set (Associate eq keys vals) = set (last_writes eq ?ps)"
    by (rule mset_eq_setD)
  show "set (Associate eq keys vals)
       = {(keys ! i, vals ! i) |i. i < ?n \<and> (\<forall>j. i < j \<and> j < ?n \<longrightarrow> \<not> eq (keys ! i) (keys ! j))}"
    (is "_ = ?E")
  proof (rule set_eqI)
    fix x
    have "x \<in> set (last_writes eq ?ps) \<longleftrightarrow>
       (\<exists>i. i < length ?ps \<and> ?ps ! i = x
          \<and> (\<forall>j. i < j \<and> j < length ?ps \<longrightarrow> \<not> eq (fst (?ps ! i)) (fst (?ps ! j))))"
      by (rule last_writes_iff)
    also have "\<dots> \<longleftrightarrow> (\<exists>i. i < ?n \<and> (keys ! i, vals ! i) = x
          \<and> (\<forall>j. i < j \<and> j < ?n \<longrightarrow> \<not> eq (keys ! i) (keys ! j)))"
      by auto
    also have "\<dots> \<longleftrightarrow> x \<in> ?E"
      by auto
    finally show "x \<in> set (Associate eq keys vals) \<longleftrightarrow> x \<in> ?E"
      unfolding S .
  qed
  fix i
  assume h: "i < min (length keys) (length vals) \<and> eq (keys ! i) k
          \<and> (\<forall>j. i < j \<and> j < min (length keys) (length vals) \<longrightarrow> \<not> eq (keys ! j) k)"
  then have i: "i < length ?ps" by simp
  have e: "eq (fst (?ps ! i)) k"
    using h by simp
  have "\<forall>j. i < j \<and> j < length ?ps \<longrightarrow> \<not> eq (fst (?ps ! j)) k"
    using h by auto
  from fold_assign_last [OF assms i e this, of "[]"] i
  show "map_index eq (Associate eq keys vals) k = Some (vals ! i)"
    by (simp add: A)
qed

theorem Associate_last_write_wins_witness:
  "Associate (=) [''x'', ''y'', ''x'', ''z''] [10, 20, 30 :: int] = [(''x'', 30), (''y'', 20)]
   \<and> map_index (=) (Associate (=) [''x'', ''y'', ''x'', ''z''] [10, 20, 30 :: int]) ''x'' = Some 30
   \<and> map_index (=) (Associate (=) [''x'', ''y'', ''x'', ''z''] [10, 20, 30 :: int]) ''z'' = None
   \<and> Associate ieee_eq [NaN, Fin False 0, NaN, Fin True 0] [1, 2, 3, 4 :: int]
       = [(NaN, 1), (Fin True 0, 4), (NaN, 3)]
   \<and> last_writes ieee_eq (zip [NaN, Fin False 0, NaN, Fin True 0] [1, 2, 3, 4 :: int])
       = [(NaN, 1), (NaN, 3), (Fin True 0, 4)]
   \<and> mset [(NaN, 1), (Fin True 0, 4), (NaN, 3 :: int)] = mset [(NaN, 1), (NaN, 3), (Fin True 0, 4)]
   \<and> map_index ieee_eq (Associate ieee_eq [NaN, Fin False 0, NaN, Fin True 0] [1, 2, 3, 4 :: int]) NaN
       = None
   \<and> map_index ieee_eq (Associate ieee_eq [NaN, Fin False 0, NaN, Fin True 0] [1, 2, 3, 4 :: int])
        (Fin False 0) = Some 4"
proof -
  have s: "symp ((=) :: string \<Rightarrow> string \<Rightarrow> bool)" by (simp add: symp_def)
  have t: "transp ((=) :: string \<Rightarrow> string \<Rightarrow> bool)" by (simp add: transp_def)
  have s': "symp ieee_eq"
  proof (rule sympI)
    fix x y assume "ieee_eq x y" then show "ieee_eq y x"
      by (cases x; cases y) auto
  qed
  have t': "transp ieee_eq"
  proof (rule transpI)
    fix x y z assume "ieee_eq x y" "ieee_eq y z" then show "ieee_eq x z"
      by (cases x; cases y; cases z) auto
  qed
  have a: "Associate (=) [''x'', ''y'', ''x'', ''z''] [10, 20, 30 :: int] = [(''x'', 30), (''y'', 20)]"
    by (simp add: Associate_def)
  have b: "Associate ieee_eq [NaN, Fin False 0, NaN, Fin True 0] [1, 2, 3, 4 :: int]
             = [(NaN, 1), (Fin True 0, 4), (NaN, 3)]"
    by (simp add: Associate_def)
  have l: "last_writes ieee_eq (zip [NaN, Fin False 0, NaN, Fin True 0] [1, 2, 3, 4 :: int])
       = [(NaN, 1), (NaN, 3), (Fin True 0, 4)]"
    by simp
  from Associate_last_write_wins [OF s t, of "[''x'', ''y'', ''x'', ''z'']" "[10, 20, 30 :: int]" "''x''"]
  have c: "map_index (=) (Associate (=) [''x'', ''y'', ''x'', ''z''] [10, 20, 30 :: int]) ''x'' = Some 30"
    by (simp add: a)
  from Associate_last_write_wins [OF s t, of "[''x'', ''y'', ''x'', ''z'']" "[10, 20, 30 :: int]" "''z''"]
  have d: "map_index (=) (Associate (=) [''x'', ''y'', ''x'', ''z''] [10, 20, 30 :: int]) ''z'' = None"
    by (simp add: a)
  from Associate_last_write_wins [OF s' t', of "[NaN, Fin False 0, NaN, Fin True 0]"
      "[1, 2, 3, 4 :: int]" NaN]
  have m: "mset (Associate ieee_eq [NaN, Fin False 0, NaN, Fin True 0] [1, 2, 3, 4 :: int])
      = mset (last_writes ieee_eq (zip [NaN, Fin False 0, NaN, Fin True 0] [1, 2, 3, 4 :: int]))"
    by blast
  have m': "mset [(NaN, 1), (Fin True 0, 4), (NaN, 3 :: int)] = mset [(NaN, 1), (NaN, 3), (Fin True 0, 4)]"
    using m unfolding b l .
  have e: "map_index ieee_eq (Associate ieee_eq [NaN, Fin False 0, NaN, Fin True 0] [1, 2, 3, 4 :: int]) NaN
       = None"
    unfolding b by simp
  have f: "map_index ieee_eq (Associate ieee_eq [NaN, Fin False 0, NaN, Fin True 0] [1, 2, 3, 4 :: int])
        (Fin False 0) = Some 4"
    unfolding b by simp
  from a c d b l m' e f show ?thesis by (intro conjI)
qed


subsection \<open>IntersperseBy\<close>

lemma interspersed_by_Cons: "interspersed_by f (v # rest) = v # tl (interspersed_by f (v # rest))"
  by (cases rest) simp_all

lemma IntersperseBy_loop_eq:
  "i < length vals \<Longrightarrow> drop (Suc i) vals = rest \<Longrightarrow>
     IntersperseBy_loop vals f i rest result = Inr (result @ tl (interspersed_by f (drop i vals)))"
proof (induction rest arbitrary: i result)
  case Nil
  then have "drop i vals = [vals ! i]"
    by (metis Cons_nth_drop_Suc)
  then show ?case by simp
next
  case (Cons v rest)
  from Cons.prems have lt: "Suc i < length vals"
    by (metis drop_eq_Nil2 list.distinct(1) not_le)
  from Cons.prems lt have rest: "drop (Suc (Suc i)) vals = rest"
    by (metis Cons_nth_drop_Suc list.inject)
  have d0: "drop i vals = vals ! i # v # rest"
    using Cons.prems by (metis Cons_nth_drop_Suc)
  have hd: "interspersed_by f (v # rest) = v # tl (interspersed_by f (v # rest))"
    by (rule interspersed_by_Cons)
  have "IntersperseBy_loop vals f i (v # rest) result
          = IntersperseBy_loop vals f (Suc i) rest (result @ [f (vals ! i), v])"
    using Cons.prems(1) by simp
  also have "\<dots> = Inr ((result @ [f (vals ! i), v]) @ tl (interspersed_by f (drop (Suc i) vals)))"
    by (rule Cons.IH [OF lt rest])
  also have "(result @ [f (vals ! i), v]) @ tl (interspersed_by f (drop (Suc i) vals))
          = result @ f (vals ! i) # interspersed_by f (v # rest)"
    unfolding Cons.prems(2) by (subst (2) hd) simp
  also have "\<dots> = result @ tl (interspersed_by f (drop i vals))"
    unfolding d0 by simp
  finally show ?case .
qed

lemma length_interspersed_by: "length (interspersed_by f xs) = 2 * length xs - 1"
  by (induction f xs rule: interspersed_by.induct) simp_all

lemma interspersed_by_even: "k < length xs \<Longrightarrow> interspersed_by f xs ! (2 * k) = xs ! k"
proof (induction f xs arbitrary: k rule: interspersed_by.induct)
  case (3 f v w rest)
  then show ?case by (cases k) simp_all
qed simp_all

lemma interspersed_by_odd: "Suc k < length xs \<Longrightarrow> interspersed_by f xs ! Suc (2 * k) = f (xs ! k)"
proof (induction f xs arbitrary: k rule: interspersed_by.induct)
  case (3 f v w rest)
  then show ?case by (cases k) simp_all
qed simp_all

lemma IntersperseBy_eq: "IntersperseBy vals f = Inr (interspersed_by f vals)"
proof (cases vals)
  case Nil
  then show ?thesis by (simp add: IntersperseBy_def)
next
  case (Cons v rest)
  then have "IntersperseBy vals f = Inr ([v] @ tl (interspersed_by f (drop 0 vals)))"
    unfolding IntersperseBy_def
    using IntersperseBy_loop_eq [of 0 vals rest f "[v]"] by simp
  also have "[v] @ tl (interspersed_by f (drop 0 vals)) = interspersed_by f vals"
    unfolding Cons using interspersed_by_Cons [of f v rest] by simp
  finally show ?thesis .
qed

text \<open>
  Claim C7.  On the empty slice \<open>IntersperseBy\<close> returns the empty slice.  On a slice of
  \<open>n > 0\<close> elements it returns \<open>2n - 1\<close> elements: the element \<open>k\<close> of the input at the
  even position \<open>2k\<close>, and at the odd position \<open>2k + 1\<close> the separator made from the
  element \<open>k\<close>, the one just before it.  The example of the doc comment is the last
  conjunct.
\<close>

theorem IntersperseBy_shape:
  "IntersperseBy [] f = Inr []
   \<and> (vals \<noteq> [] \<longrightarrow>
        (\<exists>r. IntersperseBy vals f = Inr r
           \<and> length r = 2 * length vals - 1
           \<and> (\<forall>k < length vals. r ! (2 * k) = vals ! k)
           \<and> (\<forall>k. k + 1 < length vals \<longrightarrow> r ! (2 * k + 1) = f (vals ! k))))
   \<and> IntersperseBy [''first'', ''second'', ''third''] (\<lambda>x. ''after '' @ x)
       = Inr [''first'', ''after first'', ''second'', ''after second'', ''third'']"
  by (simp add: IntersperseBy_eq length_interspersed_by interspersed_by_even interspersed_by_odd)

theorem IntersperseBy_shape_witness:
  "[3, 5, 8 :: nat] \<noteq> []
   \<and> IntersperseBy [3, 5, 8 :: nat] (\<lambda>x. 10 * x) = Inr [3, 30, 5, 50, 8]"
  using IntersperseBy_shape [of "\<lambda>x. 10 * x" "[3, 5, 8 :: nat]"]
  by (simp add: IntersperseBy_def)

subsection \<open>Slices: copy and append\<close>

lemma length_elems: "valid_slice st s \<Longrightarrow> length (elems st s) = s_len s"
  by (auto simp: valid_slice_def elems_def)

lemma length_write_at: "k + length es \<le> length a \<Longrightarrow> length (write_at a k es) = length a"
  by (simp add: write_at_def)

lemma window_write_at:
  "off + k \<le> length a \<Longrightarrow>
     take (k + length es) (drop off (write_at a (off + k) es)) = take k (drop off a) @ es"
  by (simp add: write_at_def drop_take)

text \<open>
  \<open>copy\<close> of an empty slice is the nil slice and allocates nothing.  Of any other slice
  it is a slice with the same elements in a new array, the last of the store.
\<close>

lemma copy_empty:
  "valid_slice st s \<Longrightarrow> s_len s = 0 \<Longrightarrow> copy grow z st s = (st, nil_slice)"
  by (simp add: copy_def go_append_def nil_slice_def elems_def write_at_def)

lemma copy_nonempty:
  assumes "valid_slice st s" and "0 < s_len s"
  shows "\<exists>a c. copy grow z st s = (st @ [a], c) \<and> s_arr c = length st \<and> s_off c = 0
            \<and> s_len c = s_len s \<and> s_len s \<le> s_cap c \<and> length a = s_cap c
            \<and> take (s_len s) a = elems st s"
proof -
  let ?n = "s_len s"
  let ?c = "max ?n (grow 0 ?n)"
  have len: "length (elems st s) = ?n" by (rule length_elems [OF assms(1)])
  have "copy grow z st s
      = (st @ [elems st s @ replicate (?c - ?n) z],
         \<lparr>s_arr = length st, s_off = 0, s_len = ?n, s_cap = ?c\<rparr>)"
    using assms(2) len by (simp add: copy_def go_append_def nil_slice_def elems_def Let_def)
  moreover have "length (elems st s @ replicate (?c - ?n) z) = ?c"
    using len by simp
  moreover have "take ?n (elems st s @ replicate (?c - ?n) z) = elems st s"
    using len by simp
  ultimately show ?thesis by simp
qed


lemma elems_extend: "valid_slice st s \<Longrightarrow> elems (st @ new) s = elems st s"
  by (auto simp: valid_slice_def elems_def nth_append)

text \<open>
  The expression \<^verbatim>\<open>append(slice[:i], slice[i+1:]...)\<close> on a slice that owns the last
  array of the store, from its start.  Outside the length one of the slice expressions
  panics; the first one alone does not, for an index between the length and the
  capacity.  Inside, the elements behind \<open>i\<close> move down by one place within the array.
\<close>

lemma append_around_out_of_range:
  "\<not> (0 \<le> i \<and> i < int (s_len c)) \<Longrightarrow> append_around grow z st c i = Inl SliceBoundsOutOfRange"
  by (auto simp: append_around_def slice_upto_def slice_from_def)

lemma append_around_copy:
  assumes "s_arr c = length st" and "s_off c = 0" and "s_len c \<le> s_cap c"
    and "length a = s_cap c" and "k < s_len c"
  shows "\<exists>a'. append_around grow z (st @ [a]) c (int k)
               = Inr (st @ [a'], c\<lparr>s_len := s_len c - 1\<rparr>)
            \<and> length a' = length a
            \<and> take (s_len c - 1) a'
                = take k (take (s_len c) a) @ drop (Suc k) (take (s_len c) a)"
proof -
  let ?n = "s_len c"
  let ?es = "take (?n - Suc k) (drop (Suc k) a)"
  have natk: "nat (int k + 1) = Suc k" by simp
  have les: "length ?es = ?n - Suc k"
    using assms by simp
  have "append_around grow z (st @ [a]) c (int k)
          = Inr (st @ [write_at a k ?es], c\<lparr>s_len := ?n - 1\<rparr>)"
    using assms les
    by (simp add: append_around_def slice_upto_def slice_from_def go_append_def elems_def
        Let_def natk)
  moreover have "length (write_at a k ?es) = length a"
    using assms les by (simp add: length_write_at)
  moreover have "take (?n - 1) (write_at a k ?es)
                   = take k (take ?n a) @ drop (Suc k) (take ?n a)"
  proof -
    have w: "take (k + length ?es) (drop 0 (write_at a (0 + k) ?es)) = take k (drop 0 a) @ ?es"
      by (rule window_write_at) (use assms in simp)
    have kn: "k + length ?es = ?n - 1"
      unfolding les using assms by simp
    have front: "take k (take ?n a) = take k a" using assms by simp
    have rest: "drop (Suc k) (take ?n a) = ?es" by (simp add: drop_take)
    from w have "take (?n - 1) (write_at a k ?es) = take k a @ ?es"
      unfolding kn by simp
    then show ?thesis
      unfolding front rest .
  qed
  ultimately show ?thesis by blast
qed

subsection \<open>RemoveAt\<close>

text \<open>
  Claim C2.  On a well-formed slice, \<open>RemoveAt\<close> panics exactly when the index is
  outside \<open>[0, len)\<close>, and then with the slice-bounds panic.  Inside, it returns a slice
  with the elements before and behind the index; the slice lies in an array that did
  not exist before the call, every array that did is as it was, and so the slice passed
  in has the elements it had.
\<close>

theorem RemoveAt_in_range_iff:
  assumes "valid_slice st s"
  shows "(RemoveAt grow z st s i = Inl SliceBoundsOutOfRange \<longleftrightarrow> \<not> (0 \<le> i \<and> i < int (s_len s)))
     \<and> (isl (RemoveAt grow z st s i) \<longleftrightarrow> \<not> (0 \<le> i \<and> i < int (s_len s)))
     \<and> (0 \<le> i \<and> i < int (s_len s) \<longrightarrow>
          (\<exists>st' r. RemoveAt grow z st s i = Inr (st', r)
              \<and> elems st' r = take (nat i) (elems st s) @ drop (Suc (nat i)) (elems st s)
              \<and> valid_slice st' r
              \<and> s_arr r = length st
              \<and> take (length st) st' = st
              \<and> elems st' s = elems st s))"
proof (cases "0 \<le> i \<and> i < int (s_len s)")
  case False
  have "RemoveAt grow z st s i = Inl SliceBoundsOutOfRange"
  proof (cases "s_len s = 0")
    case True
    then show ?thesis
      by (simp add: RemoveAt_def copy_empty [OF assms] append_around_out_of_range nil_slice_def)
  next
    case nonempty: False
    with copy_nonempty [OF assms, of grow z]
    obtain a c where c: "copy grow z st s = (st @ [a], c)" "s_len c = s_len s"
      by auto
    with False show ?thesis
      by (simp add: RemoveAt_def append_around_out_of_range)
  qed
  with False show ?thesis by simp
next
  case True
  then have pos: "0 < s_len s" and k: "nat i < s_len s" and i: "i = int (nat i)"
    by linarith+
  from copy_nonempty [OF assms pos, of grow z]
  obtain a c where c: "copy grow z st s = (st @ [a], c)" "s_arr c = length st" "s_off c = 0"
    "s_len c = s_len s" "s_len s \<le> s_cap c" "length a = s_cap c" "take (s_len s) a = elems st s"
    by auto
  from append_around_copy [of c st a "nat i" grow z] c k
  obtain a' where a': "append_around grow z (st @ [a]) c (int (nat i))
        = Inr (st @ [a'], c\<lparr>s_len := s_len c - 1\<rparr>)"
    "length a' = length a"
    "take (s_len c - 1) a' = take (nat i) (take (s_len c) a) @ drop (Suc (nat i)) (take (s_len c) a)"
    by auto
  let ?r = "c\<lparr>s_len := s_len c - 1\<rparr>"
  have res: "RemoveAt grow z st s i = Inr (st @ [a'], ?r)"
    using c(1) a'(1) i by (simp add: RemoveAt_def)
  moreover have "elems (st @ [a']) ?r = take (nat i) (elems st s) @ drop (Suc (nat i)) (elems st s)"
    using c a'(3) by (simp add: elems_def)
  moreover have "valid_slice (st @ [a']) ?r"
    using c a'(2) by (simp add: valid_slice_def)
  moreover have "s_arr ?r = length st"
    using c by simp
  moreover have "elems (st @ [a']) s = elems st s"
    by (rule elems_extend [OF assms])
  ultimately show ?thesis
    using True by simp
qed

theorem RemoveAt_in_range_iff_witness:
  "valid_slice [[1, 2, 3 :: int]] \<lparr>s_arr = 0, s_off = 0, s_len = 3, s_cap = 3\<rparr>
   \<and> RemoveAt (\<lambda>c n. 2 * n) 0 [[1, 2, 3 :: int]] \<lparr>s_arr = 0, s_off = 0, s_len = 3, s_cap = 3\<rparr> 1
       = Inr ([[1, 2, 3], [1, 3, 3, 0, 0, 0]], \<lparr>s_arr = 1, s_off = 0, s_len = 2, s_cap = 6\<rparr>)
   \<and> elems [[1, 2, 3], [1, 3, 3, 0, 0, 0 :: int]] \<lparr>s_arr = 1, s_off = 0, s_len = 2, s_cap = 6\<rparr>
       = [1, 3]
   \<and> RemoveAt (\<lambda>c n. 2 * n) 0 [[1, 2, 3 :: int]] \<lparr>s_arr = 0, s_off = 0, s_len = 3, s_cap = 3\<rparr> 5
       = Inl SliceBoundsOutOfRange"
proof -
  have v: "valid_slice [[1, 2, 3 :: int]] \<lparr>s_arr = 0, s_off = 0, s_len = 3, s_cap = 3\<rparr>"
    by (simp add: valid_slice_def)
  have "RemoveAt (\<lambda>c n. 2 * n) 0 [[1, 2, 3 :: int]] \<lparr>s_arr = 0, s_off = 0, s_len = 3, s_cap = 3\<rparr> 1
       = Inr ([[1, 2, 3], [1, 3, 3, 0, 0, 0]], \<lparr>s_arr = 1, s_off = 0, s_len = 2, s_cap = 6\<rparr>)"
    by (simp add: RemoveAt_def copy_def go_append_def nil_slice_def elems_def append_around_def
        slice_upto_def slice_from_def write_at_def numeral_3_eq_3)
  moreover have "elems [[1, 2, 3], [1, 3, 3, 0, 0, 0 :: int]]
       \<lparr>s_arr = 1, s_off = 0, s_len = 2, s_cap = 6\<rparr> = [1, 3]"
    by (simp add: elems_def)
  moreover have "RemoveAt (\<lambda>c n. 2 * n) 0 [[1, 2, 3 :: int]]
       \<lparr>s_arr = 0, s_off = 0, s_len = 3, s_cap = 3\<rparr> 5 = Inl SliceBoundsOutOfRange"
    using RemoveAt_in_range_iff [OF v, of "\<lambda>c n. 2 * n" 0 5] by simp
  ultimately show ?thesis using v by simp
qed

subsection \<open>Remove\<close>

text \<open>
  The loop of \<open>Remove\<close> on the copy, from the index \<open>k\<close> on, when no element before \<open>k\<close>
  compares equal to the item.
\<close>

lemma Remove_loop_copy:
  assumes "s_arr c = length st" and "s_off c = 0" and "s_len c \<le> s_cap c"
    and "length a = s_cap c" and "take (s_len c) a = xs"
  shows "drop k xs = rest \<Longrightarrow> \<forall>j < k. \<not> eq (xs ! j) x \<Longrightarrow>
     (\<exists>a' i. i < s_len c \<and> eq (xs ! i) x \<and> (\<forall>j < i. \<not> eq (xs ! j) x)
          \<and> Remove_loop eq grow z (st @ [a]) c x (int k) rest
              = Inr (st @ [a'], c\<lparr>s_len := s_len c - 1\<rparr>)
          \<and> length a' = length a
          \<and> take (s_len c - 1) a' = take i xs @ drop (Suc i) xs)
     \<or> ((\<forall>j < s_len c. \<not> eq (xs ! j) x)
          \<and> Remove_loop eq grow z (st @ [a]) c x (int k) rest = Inr (st @ [a], c))"
proof (induction rest arbitrary: k)
  case Nil
  have len: "length xs = s_len c" using assms by auto
  from Nil.prems(1) len have "s_len c \<le> k" by simp
  with Nil.prems(2) have "\<forall>j < s_len c. \<not> eq (xs ! j) x" by simp
  then show ?case by simp
next
  case (Cons v rest)
  have len: "length xs = s_len c" using assms by auto
  from Cons.prems(1) have k: "k < s_len c"
    using len by (metis drop_all list.distinct(1) not_le)
  with Cons.prems(1) len have v: "xs ! k = v" and rest: "drop (Suc k) xs = rest"
    by (metis Cons_nth_drop_Suc list.inject)+
  show ?case
  proof (cases "eq v x")
    case True
    from append_around_copy [OF assms(1-4) k, of grow z]
    obtain a' where a': "append_around grow z (st @ [a]) c (int k)
          = Inr (st @ [a'], c\<lparr>s_len := s_len c - 1\<rparr>)"
      "length a' = length a" "take (s_len c - 1) a' = take k xs @ drop (Suc k) xs"
      unfolding assms(5) by auto
    have "k < s_len c \<and> eq (xs ! k) x \<and> (\<forall>j < k. \<not> eq (xs ! j) x)
          \<and> Remove_loop eq grow z (st @ [a]) c x (int k) (v # rest)
              = Inr (st @ [a'], c\<lparr>s_len := s_len c - 1\<rparr>)
          \<and> length a' = length a
          \<and> take (s_len c - 1) a' = take k xs @ drop (Suc k) xs"
      using k v True Cons.prems(2) a' by simp
    then show ?thesis by blast
  next
    case False
    have "\<forall>j < Suc k. \<not> eq (xs ! j) x"
      using Cons.prems(2) v False by (simp add: less_Suc_eq)
    from Cons.IH [OF rest this] False show ?thesis
      by (simp add: add.commute)
  qed
qed

text \<open>
  Claim C9.  On a well-formed slice \<open>Remove\<close> returns, without a panic, a slice with the
  elements of the input less the first one that compares equal to the item: one element
  fewer when there is such an element, the same elements when there is none.  The
  result is the nil slice or lies in an array that did not exist before the call; every
  array that did is as it was, and so the slice passed in has the elements it had.
\<close>

theorem Remove_first_occurrence:
  assumes "valid_slice st s"
  shows "\<exists>st' r. Remove eq grow z st s x = Inr (st', r)
      \<and> ((\<exists>i < s_len s. eq (elems st s ! i) x \<and> (\<forall>j < i. \<not> eq (elems st s ! j) x)
              \<and> elems st' r = take i (elems st s) @ drop (Suc i) (elems st s)
              \<and> length (elems st' r) = s_len s - 1)
          \<or> ((\<forall>j < s_len s. \<not> eq (elems st s ! j) x)
              \<and> elems st' r = elems st s \<and> length (elems st' r) = s_len s))
      \<and> valid_slice st' r
      \<and> (s_cap r = 0 \<or> s_arr r = length st)
      \<and> take (length st) st' = st
      \<and> elems st' s = elems st s"
proof (cases "s_len s = 0")
  case True
  have len: "length (elems st s) = s_len s" by (rule length_elems [OF assms])
  with True have "elems st s = []" by simp
  moreover have "elems st nil_slice = []" by (simp add: elems_def nil_slice_def)
  moreover have "valid_slice st nil_slice" by (simp add: valid_slice_def nil_slice_def)
  moreover have "s_cap nil_slice = 0" by (simp add: nil_slice_def)
  ultimately show ?thesis
    using True by (simp add: Remove_def copy_empty [OF assms])
next
  case False
  let ?xs = "elems st s"
  have len: "length ?xs = s_len s" by (rule length_elems [OF assms])
  from False copy_nonempty [OF assms, of grow z]
  obtain a c where c: "copy grow z st s = (st @ [a], c)" "s_arr c = length st" "s_off c = 0"
    "s_len c = s_len s" "s_len s \<le> s_cap c" "length a = s_cap c" "take (s_len s) a = ?xs"
    by auto
  have ec: "elems (st @ [a]) c = ?xs"
    using c by (simp add: elems_def)
  have run: "Remove eq grow z st s x = Remove_loop eq grow z (st @ [a]) c x 0 ?xs"
    using c(1) ec by (simp add: Remove_def)
  have same: "elems (st @ [a']) s = ?xs" for a'
    by (rule elems_extend [OF assms])
  from Remove_loop_copy [of c st a ?xs 0 ?xs eq x grow z] c
  consider (found) a' i where "i < s_len s" "eq (?xs ! i) x" "\<forall>j < i. \<not> eq (?xs ! j) x"
      "Remove_loop eq grow z (st @ [a]) c x 0 ?xs = Inr (st @ [a'], c\<lparr>s_len := s_len c - 1\<rparr>)"
      "length a' = length a" "take (s_len s - 1) a' = take i ?xs @ drop (Suc i) ?xs"
    | (absent) "\<forall>j < s_len s. \<not> eq (?xs ! j) x"
      "Remove_loop eq grow z (st @ [a]) c x 0 ?xs = Inr (st @ [a], c)"
    by auto
  then show ?thesis
  proof cases
    case found
    let ?r = "c\<lparr>s_len := s_len c - 1\<rparr>"
    have e: "elems (st @ [a']) ?r = take i ?xs @ drop (Suc i) ?xs"
      using c found(6) by (simp add: elems_def)
    have l: "length (take i ?xs @ drop (Suc i) ?xs) = s_len s - 1"
      using found(1) len by simp
    have v: "valid_slice (st @ [a']) ?r"
      using c found(5) by (simp add: valid_slice_def)
    have "Remove eq grow z st s x = Inr (st @ [a'], ?r)
        \<and> (i < s_len s \<and> eq (?xs ! i) x \<and> (\<forall>j < i. \<not> eq (?xs ! j) x)
              \<and> elems (st @ [a']) ?r = take i ?xs @ drop (Suc i) ?xs
              \<and> length (elems (st @ [a']) ?r) = s_len s - 1)
        \<and> valid_slice (st @ [a']) ?r \<and> s_arr ?r = length st
        \<and> take (length st) (st @ [a']) = st \<and> elems (st @ [a']) s = ?xs"
      using run found(1-4) e l v c(2) same by simp
    then show ?thesis by blast
  next
    case absent
    have v: "valid_slice (st @ [a]) c"
      using c by (simp add: valid_slice_def)
    have "Remove eq grow z st s x = Inr (st @ [a], c)
        \<and> ((\<forall>j < s_len s. \<not> eq (?xs ! j) x)
              \<and> elems (st @ [a]) c = ?xs \<and> length (elems (st @ [a]) c) = s_len s)
        \<and> valid_slice (st @ [a]) c \<and> s_arr c = length st
        \<and> take (length st) (st @ [a]) = st \<and> elems (st @ [a]) s = ?xs"
      using run absent ec len v c(2) same by simp
    then show ?thesis by blast
  qed
qed

theorem Remove_first_occurrence_witness:
  "valid_slice [[4, 2, 7, 2 :: int]] \<lparr>s_arr = 0, s_off = 0, s_len = 4, s_cap = 4\<rparr>
   \<and> Remove (=) (\<lambda>c n. n) 0 [[4, 2, 7, 2 :: int]] \<lparr>s_arr = 0, s_off = 0, s_len = 4, s_cap = 4\<rparr> 2
       = Inr ([[4, 2, 7, 2], [4, 7, 2, 2]], \<lparr>s_arr = 1, s_off = 0, s_len = 3, s_cap = 4\<rparr>)
   \<and> elems [[4, 2, 7, 2], [4, 7, 2, 2 :: int]] \<lparr>s_arr = 1, s_off = 0, s_len = 3, s_cap = 4\<rparr>
       = [4, 7, 2]
   \<and> elems [[4, 2, 7, 2], [4, 7, 2, 2 :: int]] \<lparr>s_arr = 0, s_off = 0, s_len = 4, s_cap = 4\<rparr>
       = [4, 2, 7, 2]"
proof -
  have v: "valid_slice [[4, 2, 7, 2 :: int]] \<lparr>s_arr = 0, s_off = 0, s_len = 4, s_cap = 4\<rparr>"
    by (simp add: valid_slice_def)
  have run: "Remove (=) (\<lambda>c n. n) 0 [[4, 2, 7, 2 :: int]] \<lparr>s_arr = 0, s_off = 0, s_len = 4, s_cap = 4\<rparr> 2
       = Inr ([[4, 2, 7, 2], [4, 7, 2, 2]], \<lparr>s_arr = 1, s_off = 0, s_len = 3, s_cap = 4\<rparr>)"
    by (simp add: Remove_def copy_def go_append_def nil_slice_def elems_def append_around_def
        slice_upto_def slice_from_def write_at_def)
  from Remove_first_occurrence [OF v, of "(=)" "\<lambda>c n. n" 0 2] run
  have "elems [[4, 2, 7, 2], [4, 7, 2, 2 :: int]] \<lparr>s_arr = 0, s_off = 0, s_len = 4, s_cap = 4\<rparr>
       = elems [[4, 2, 7, 2 :: int]] \<lparr>s_arr = 0, s_off = 0, s_len = 4, s_cap = 4\<rparr>"
    by auto
  then show ?thesis using v run by (simp add: elems_def)
qed

subsection \<open>Shuffle\<close>

text \<open>
  The backing array of a well-formed slice splits into the part before the slice, the
  elements of the slice and the part behind it.
\<close>

lemma window_split:
  "a = take off a @ take n (drop off a) @ drop (off + n) a"
  by (metis add.commute append_take_drop_id drop_drop)

lemma valid_slice_in_store:
  "valid_slice st s \<Longrightarrow> 0 < s_len s \<Longrightarrow>
     s_arr s < length st \<and> s_off s + s_len s \<le> length (st ! s_arr s)"
  by (auto simp: valid_slice_def)

text \<open>
  One tuple assignment \<^verbatim>\<open>slice[i], slice[j] = slice[j], slice[i]\<close> with both indices in
  range: no panic, and the two elements change places inside the window of the slice.
\<close>

lemma swap_window:
  "i < length xs \<Longrightarrow> j < length xs \<Longrightarrow>
     (L @ xs @ R)[length L + i := (L @ xs @ R) ! (length L + j),
                  length L + j := (L @ xs @ R) ! (length L + i)]
       = L @ swap_elems i j xs @ R"
  by (simp add: list_update_append nth_append swap_elems_def)

lemma swap_in_range:
  assumes "valid_slice st s" and "i < s_len s" and "j < s_len s"
  shows "swap st s (int i) (int j)
     = Inr (st[s_arr s := take (s_off s) (st ! s_arr s)
                           @ swap_elems i j (elems st s)
                           @ drop (s_off s + s_len s) (st ! s_arr s)])"
proof -
  let ?a = "st ! s_arr s"
  define L where "L = take (s_off s) ?a"
  define xs where "xs = elems st s"
  define R where "R = drop (s_off s + s_len s) ?a"
  from valid_slice_in_store [OF assms(1)] assms(2)
  have arr: "s_arr s < length st" and fits: "s_off s + s_len s \<le> length ?a"
    by simp_all
  have a: "?a = L @ xs @ R"
    unfolding L_def xs_def R_def elems_def by (rule window_split)
  have lL: "s_off s = length L" using fits by (simp add: L_def)
  have lxs: "length xs = s_len s" unfolding xs_def by (rule length_elems [OF assms(1)])
  have "swap st s (int i) (int j)
          = Inr (st[s_arr s := ?a[s_off s + i := ?a ! (s_off s + j), s_off s + j := ?a ! (s_off s + i)]])"
    using assms(2,3) arr by (simp add: swap_def index_get_def index_set_def)
  also have "?a[s_off s + i := ?a ! (s_off s + j), s_off s + j := ?a ! (s_off s + i)]
               = L @ swap_elems i j xs @ R"
    unfolding a lL by (rule swap_window) (simp_all add: lxs assms)
  finally show ?thesis
    unfolding L_def xs_def R_def .
qed


text \<open>
  Writing elements of the right number into the window keeps the slice well formed and
  the rest of its array as it was.
\<close>

lemma window_store:
  assumes "valid_slice st s" and "0 < s_len s" and "length ys = s_len s"
  defines "st1 \<equiv> st[s_arr s := take (s_off s) (st ! s_arr s) @ ys
                                  @ drop (s_off s + s_len s) (st ! s_arr s)]"
  shows "valid_slice st1 s" and "elems st1 s = ys"
    and "take (s_off s) (st1 ! s_arr s) = take (s_off s) (st ! s_arr s)"
    and "drop (s_off s + s_len s) (st1 ! s_arr s) = drop (s_off s + s_len s) (st ! s_arr s)"
proof -
  let ?a = "st ! s_arr s"
  define L where "L = take (s_off s) ?a"
  define R where "R = drop (s_off s + s_len s) ?a"
  from valid_slice_in_store [OF assms(1,2)]
  have arr: "s_arr s < length st" and fits: "s_off s + s_len s \<le> length ?a"
    by simp_all
  have lL: "length L = s_off s" using fits by (simp add: L_def)
  have lR: "length R = length ?a - (s_off s + s_len s)" by (simp add: R_def)
  have st1: "st1 ! s_arr s = L @ ys @ R"
    using arr by (simp add: st1_def L_def R_def)
  have lst1: "length st1 = length st" by (simp add: st1_def)
  have la: "length (st1 ! s_arr s) = length ?a"
    unfolding st1 using lL lR fits assms(3) by simp
  show "valid_slice st1 s"
    using assms(1) arr la lst1 by (auto simp: valid_slice_def)
  show "elems st1 s = ys"
    unfolding elems_def st1 using lL assms(3) by simp
  show "take (s_off s) (st1 ! s_arr s) = take (s_off s) ?a"
    unfolding st1 using lL by (simp add: L_def)
  show "drop (s_off s + s_len s) (st1 ! s_arr s) = drop (s_off s + s_len s) ?a"
    unfolding st1 using lL assms(3) by (simp add: R_def)
qed

lemma length_swap_elems: "length (swap_elems i j xs) = length xs"
  by (simp add: swap_elems_def)

lemma Shuffle_loop_window:
  assumes "\<forall>i. 0 < i \<and> i < int (s_len s) \<longrightarrow> 0 \<le> Intn (i + 1) \<and> Intn (i + 1) \<le> i"
  shows "valid_slice st s \<Longrightarrow> k < s_len s \<Longrightarrow>
     Shuffle_loop Intn st s (int k)
       = Inr (st[s_arr s := take (s_off s) (st ! s_arr s)
                 @ fold (\<lambda>i. swap_elems i (nat (Intn (int i + 1)))) (rev [1..<Suc k]) (elems st s)
                 @ drop (s_off s + s_len s) (st ! s_arr s)])"
proof (induction k arbitrary: st)
  case 0
  have "take (s_off s) (st ! s_arr s) @ elems st s @ drop (s_off s + s_len s) (st ! s_arr s)
          = st ! s_arr s"
    unfolding elems_def by (rule window_split [symmetric])
  then show ?case
    by (simp add: Shuffle_loop.simps [of Intn st s 0])
next
  case (Suc k)
  let ?xs = "elems st s"
  let ?j = "nat (Intn (int (Suc k) + 1))"
  let ?ys = "swap_elems (Suc k) ?j ?xs"
  let ?st1 = "st[s_arr s := take (s_off s) (st ! s_arr s) @ ?ys
                               @ drop (s_off s + s_len s) (st ! s_arr s)]"
  from assms Suc.prems(2) have draw: "0 \<le> Intn (int (Suc k) + 1)" "Intn (int (Suc k) + 1) \<le> int (Suc k)"
    by (auto dest: spec [of _ "int (Suc k)"])
  then have j: "?j < s_len s" and jint: "int ?j = Intn (int (Suc k) + 1)"
    using Suc.prems(2) by linarith+
  have pos: "0 < s_len s" using Suc.prems(2) by simp
  have lys: "length ?ys = s_len s"
    by (simp add: length_swap_elems length_elems [OF Suc.prems(1)])
  note w = window_store [OF Suc.prems(1) pos lys]
  have sw: "swap st s (int (Suc k)) (Intn (int (Suc k) + 1)) = Inr ?st1"
    using swap_in_range [OF Suc.prems(1) Suc.prems(2) j] jint by simp
  have k: "k < s_len s" using Suc.prems(2) by simp
  have "Shuffle_loop Intn st s (int (Suc k))
          = (case swap st s (int (Suc k)) (Intn (int (Suc k) + 1)) of
               Inl e \<Rightarrow> Inl e
             | Inr st1 \<Rightarrow> Shuffle_loop Intn st1 s (int (Suc k) - 1))"
    by (subst Shuffle_loop.simps) simp
  also have "\<dots> = Shuffle_loop Intn ?st1 s (int k)"
    unfolding sw by simp
  also have "\<dots> = Inr (?st1[s_arr s := take (s_off s) (?st1 ! s_arr s)
                 @ fold (\<lambda>i. swap_elems i (nat (Intn (int i + 1)))) (rev [1..<Suc k]) (elems ?st1 s)
                 @ drop (s_off s + s_len s) (?st1 ! s_arr s)])"
    by (rule Suc.IH [OF w(1) k])
  also have "\<dots> = Inr (st[s_arr s := take (s_off s) (st ! s_arr s)
                 @ fold (\<lambda>i. swap_elems i (nat (Intn (int i + 1)))) (rev [1..<Suc (Suc k)]) ?xs
                 @ drop (s_off s + s_len s) (st ! s_arr s)])"
    unfolding w(2) w(3) w(4) by simp
  finally show ?case .
qed

lemma fold_swap_elems_mset:
  "\<forall>i \<in> set is. i < length xs \<and> J i < length xs \<Longrightarrow>
     mset (fold (\<lambda>i. swap_elems i (J i)) is xs) = mset xs
     \<and> length (fold (\<lambda>i. swap_elems i (J i)) is xs) = length xs"
proof (induction "is" arbitrary: xs)
  case Nil
  show ?case by simp
next
  case (Cons i "is")
  then have "i < length xs" "J i < length xs" by simp_all
  then have m: "mset (swap_elems i (J i) xs) = mset xs"
    by (simp add: swap_elems_def mset_swap)
  from Cons.prems have "\<forall>k \<in> set is. k < length (swap_elems i (J i) xs) \<and> J k < length (swap_elems i (J i) xs)"
    by (simp add: length_swap_elems)
  from Cons.IH [OF this] m show ?case
    by (simp add: length_swap_elems)
qed

text \<open>
  Claim C5.  With every draw \<open>j\<close> for an index \<open>i\<close> in \<open>[0, i]\<close>, \<open>Shuffle\<close> on a well-formed
  slice does not panic.  The store it leaves shows, through the same slice header, the
  elements after the swaps of \<open>i\<close> with its draw for \<open>i\<close> from the last index down to 1
  (\<open>fisher_yates\<close>), which are a permutation of the elements before the call.  No array
  is allocated and no other array is written.
\<close>

theorem Shuffle_permutes_in_place:
  assumes "valid_slice st s"
    and "\<forall>i. 0 < i \<and> i < int (s_len s) \<longrightarrow> 0 \<le> Intn (i + 1) \<and> Intn (i + 1) \<le> i"
  shows "\<exists>st'. Shuffle Intn st s = Inr st'
      \<and> elems st' s = fisher_yates Intn (elems st s)
      \<and> mset (elems st' s) = mset (elems st s)
      \<and> valid_slice st' s
      \<and> length st' = length st
      \<and> (\<forall>a. a \<noteq> s_arr s \<longrightarrow> st' ! a = st ! a)"
proof (cases "s_len s = 0")
  case True
  then have "elems st s = []" by (simp add: elems_def)
  moreover have "Shuffle Intn st s = Inr st"
    using True by (simp add: Shuffle_def Shuffle_loop.simps [of Intn st s "- 1"])
  ultimately show ?thesis
    using assms(1) by (simp add: fisher_yates_def)
next
  case False
  let ?xs = "elems st s"
  let ?ys = "fisher_yates Intn ?xs"
  let ?st' = "st[s_arr s := take (s_off s) (st ! s_arr s) @ ?ys
                               @ drop (s_off s + s_len s) (st ! s_arr s)]"
  have len: "length ?xs = s_len s" by (rule length_elems [OF assms(1)])
  from False have pos: "0 < s_len s" and k: "s_len s - 1 < s_len s"
    and last: "int (s_len s) - 1 = int (s_len s - 1)" and suc: "Suc (s_len s - 1) = s_len s"
    by simp_all
  have run: "Shuffle Intn st s = Inr ?st'"
    unfolding Shuffle_def last fisher_yates_def len
    using Shuffle_loop_window [OF assms(2) assms(1) k] unfolding suc .
  have "\<forall>i \<in> set (rev [1..<length ?xs]).
          i < length ?xs \<and> nat (Intn (int i + 1)) < length ?xs"
  proof
    fix i assume "i \<in> set (rev [1..<length ?xs])"
    then have i: "0 < int i" "int i < int (s_len s)" using len by simp_all
    with assms(2) have "0 \<le> Intn (int i + 1) \<and> Intn (int i + 1) \<le> int i"
      by blast
    with i len show "i < length ?xs \<and> nat (Intn (int i + 1)) < length ?xs"
      by linarith
  qed
  from fold_swap_elems_mset [OF this]
  have perm: "mset ?ys = mset ?xs" and lys: "length ?ys = s_len s"
    using len by (simp_all add: fisher_yates_def)
  note w = window_store [OF assms(1) pos lys]
  have "\<forall>a. a \<noteq> s_arr s \<longrightarrow> ?st' ! a = st ! a"
    by simp
  with run w(1) w(2) perm show ?thesis
    by simp
qed

theorem Shuffle_permutes_in_place_witness:
  "valid_slice [[9, 9], [0, 1, 2, 3, 0 :: int]] \<lparr>s_arr = 1, s_off = 1, s_len = 3, s_cap = 4\<rparr>
   \<and> Shuffle (\<lambda>n. 0) [[9, 9], [0, 1, 2, 3, 0 :: int]] \<lparr>s_arr = 1, s_off = 1, s_len = 3, s_cap = 4\<rparr>
       = Inr [[9, 9], [0, 2, 3, 1, 0]]
   \<and> mset [2, 3, 1 :: int] = mset [1, 2, 3]"
proof -
  let ?s = "\<lparr>s_arr = 1, s_off = 1, s_len = 3, s_cap = 4\<rparr>"
  let ?st = "[[9, 9], [0, 1, 2, 3, 0 :: int]]"
  have v: "valid_slice ?st ?s"
    by (simp add: valid_slice_def)
  have d: "\<forall>i. 0 < i \<and> i < int (s_len ?s) \<longrightarrow> 0 \<le> (\<lambda>n. 0 :: int) (i + 1) \<and> (\<lambda>n. 0 :: int) (i + 1) \<le> i"
    by simp
  have run: "Shuffle (\<lambda>n. 0) ?st ?s = Inr [[9, 9], [0, 2, 3, 1, 0]]"
    by (simp add: Shuffle_def Shuffle_loop.simps [of _ _ _ 2] Shuffle_loop.simps [of _ _ _ 1]
        Shuffle_loop.simps [of _ _ _ 0] swap_def index_get_def index_set_def)
  have e0: "elems ?st ?s = [1, 2, 3]" and e1: "elems [[9, 9], [0, 2, 3, 1, 0 :: int]] ?s = [2, 3, 1]"
    by (simp_all add: elems_def)
  from Shuffle_permutes_in_place [OF v d] run
  have "mset (elems [[9, 9], [0, 2, 3, 1, 0 :: int]] ?s) = mset (elems ?st ?s)"
    by auto
  then have "mset [2, 3, 1 :: int] = mset [1, 2, 3]"
    unfolding e0 e1 .
  with v run show ?thesis by simp
qed

end
